theory Spec2Isabelle
  imports Main "HOL-Library.AList"
begin

section \<open>Errors\<close>

text \<open>
  \<^verbatim>\<open>var ErrPoolClosed = errors.New("pool is closed")\<close> is the only error the package
  declares. Errors of the callbacks and of a context are opaque to it (\<open>External\<close>), and
  every \<^verbatim>\<open>fmt.Errorf("msg: %w", err)\<close> of the source wraps an error in a message.
\<close>

datatype error = ErrPoolClosed | External string | Wrapped string error

text \<open>
  \<^verbatim>\<open>errors.Is\<close>, which the tests use to recognise a wrapped error. The source walks
  the chain of wrapped errors and compares each with the target by identity (\<^verbatim>\<open>==\<close>).
  The errors here are values and are compared as such, which is the same for the
  targets that occur: the sentinel \<^verbatim>\<open>ErrPoolClosed\<close>, of which there is one, and an
  error of a callback, for which its name stands. Two errors that separate calls of
  \<^verbatim>\<open>fmt.Errorf\<close> made with the same text are different errors in Go and equal
  here, so a wrapped error is not to be taken as a target.
\<close>

fun error_is :: "error \<Rightarrow> error \<Rightarrow> bool" where
  "error_is (Wrapped m e) target = (Wrapped m e = target \<or> error_is e target)"
| "error_is e target = (e = target)"

section \<open>The gate: cond.go\<close>

text \<open>
  A \<^verbatim>\<open>Cond\<close> holds a channel and a flag. Channels live on the Go heap: \<open>make\<close>
  allocates a fresh one, \<open>close\<close> marks it closed for everybody who holds a reference.
  The heap is kept beside the two fields: the channels that were closed, and the next
  channel \<open>make\<close> returns. The field \<^verbatim>\<open>closed\<close> of the source is \<open>cond_closed\<close> here
  (the pool has a field \<^verbatim>\<open>closed\<close> of its own); the mutex of the \<^verbatim>\<open>Cond\<close> makes each of
  the three functions below one atomic step.
\<close>

type_synonym chan = nat

record gate =
  ch :: chan
  cond_closed :: bool
  closed_chans :: "chan set"
  next_chan :: chan

definition NewCond :: gate where
  "NewCond = \<lparr>ch = 0, cond_closed = False, closed_chans = {}, next_chan = 1\<rparr>"

text \<open>
  \<^verbatim>\<open>Wait\<close>, lines 23 to 31: under the mutex, a fired gate gets a new channel and its flag
  is cleared; the current channel is captured. The result is the captured channel.
\<close>

definition Wait_enter :: "gate \<Rightarrow> chan \<times> gate" where
  "Wait_enter s =
     (let s1 = (if cond_closed s
                then s\<lparr>ch := next_chan s, next_chan := next_chan s + 1, cond_closed := False\<rparr>
                else s)
      in (ch s1, s1))"

text \<open>
  \<^verbatim>\<open>Wait\<close>, lines 33 to 38: the \<^verbatim>\<open>select\<close> on the context and on the captured channel.
  \<open>ctx_err\<close> is \<^verbatim>\<open>ctx.Err()\<close> (\<open>None\<close> while the context is live). With both cases ready
  Go picks one of them; \<open>pick\<close> is that choice. \<open>Blocked\<close>: no case is ready.
\<close>

datatype wait_outcome = Blocked | Returned "error option"

definition Wait_select :: "error option \<Rightarrow> bool \<Rightarrow> chan \<Rightarrow> gate \<Rightarrow> wait_outcome" where
  "Wait_select ctx_err pick c s =
     (case ctx_err of
        None \<Rightarrow> (if c \<in> closed_chans s then Returned None else Blocked)
      | Some e \<Rightarrow> (if c \<in> closed_chans s \<and> \<not> pick then Returned None else Returned (Some e)))"

text \<open>
  \<^verbatim>\<open>Broadcast\<close>, lines 42 to 52. \<^verbatim>\<open>close(s.ch)\<close> adds the channel to the closed ones;
  closing a closed channel would panic, and \<open>gate_inv\<close> below is why the guard on the
  flag excludes that.
\<close>

definition Broadcast :: "gate \<Rightarrow> gate" where
  "Broadcast s =
     (if cond_closed s then s
      else s\<lparr>cond_closed := True, closed_chans := insert (ch s) (closed_chans s)\<rparr>)"

text \<open>
  What \<^verbatim>\<open>NewCond\<close> establishes and the two functions keep: the flag says whether the
  current channel is closed, and no channel that \<open>make\<close> has yet to return is closed.
\<close>

definition gate_inv :: "gate \<Rightarrow> bool" where
  "gate_inv s =
     (cond_closed s = (ch s \<in> closed_chans s) \<and> ch s < next_chan s \<and>
      Set.filter (\<lambda>c. next_chan s \<le> c) (closed_chans s) = {})"

section \<open>The pool: pool.go\<close>

text \<open>
  A resource is a pointer \<^verbatim>\<open>*T\<close>, tracked by identity: an address, \<open>nil\<close> being 0.
  The two maps \<^verbatim>\<open>map[*T]time.Time\<close> are association lists with \<open>AList.update\<close> and
  \<open>AList.delete\<close>; \<^verbatim>\<open>len\<close> is the length, which counts the keys as long as they are
  distinct (\<open>New\<close> starts with empty maps, and update and delete keep keys distinct).
  Times and durations are integers (nanoseconds). Go's \<^verbatim>\<open>int\<close> and \<^verbatim>\<open>Duration\<close> have 64
  bits; what the pool computes with them (a sum of two lengths, a counter up to
  \<^verbatim>\<open>p.minIdle\<close>, a difference of two readings of the clock) stays far from their bounds,
  so they are the integers here.
\<close>

type_synonym ptr = nat
type_synonym time = int
type_synonym tmap = "(ptr \<times> time) list"

definition nil :: ptr where
  "nil = 0"

text \<open>The keys of a map.\<close>

definition keys :: "tmap \<Rightarrow> ptr set" where
  "keys m = fst ` set m"

text \<open>
  The callbacks are closures of the caller: they read and change a state \<open>'w\<close> the pool
  knows nothing about. \<^verbatim>\<open>create\<close> returns \<^verbatim>\<open>(*T, error)\<close>, \<^verbatim>\<open>validate\<close> returns
  \<^verbatim>\<open>(bool, error)\<close>, and the source looks at the error first.

  Every call of a callback and of \<^verbatim>\<open>cond.Broadcast\<close> is recorded, in order, in \<open>trace\<close>
  (with what it returned), and \<open>held_log\<close> records beside each entry whether
  \<^verbatim>\<open>p.mutex\<close> was held at that moment. Neither is a field of the source: they are what
  an observer of the calls sees.
\<close>

datatype event =
    CreateCall ptr "error option"
  | ValidateCall ptr bool "error option"
  | ExpireCall ptr
  | BroadcastCall

record 'w Pool =
  cond :: gate
  mutex :: bool
  errLogger :: "error \<Rightarrow> string \<Rightarrow> 'w \<Rightarrow> 'w"
  janitorSleep :: int
  idleTimeout :: int
  borrowTimeout :: int
  size' :: int
  minIdle :: int
  locked :: tmap
  unlocked :: tmap
  create :: "'w \<Rightarrow> (ptr \<times> error option) \<times> 'w"
  validate :: "ptr \<Rightarrow> 'w \<Rightarrow> (bool \<times> error option) \<times> 'w"
  expire :: "ptr \<Rightarrow> 'w \<Rightarrow> 'w"
  closed :: bool
  world :: 'w
  trace :: "event list"
  held_log :: "bool list"

text \<open>
  What the Go runtime decides: the reading of the clock at each \<^verbatim>\<open>time.Now()\<close>, and the
  order in which a \<^verbatim>\<open>range\<close> over a map produces its keys (given the keys, it answers
  with the order of this iteration).
\<close>

record 'w runtime =
  time_now :: "'w \<Rightarrow> time \<times> 'w"
  range_order :: "'w \<Rightarrow> ptr list \<Rightarrow> ptr list"

definition Lock :: "'w Pool \<Rightarrow> 'w Pool" where
  "Lock p = p\<lparr>mutex := True\<rparr>"

definition Unlock :: "'w Pool \<Rightarrow> 'w Pool" where
  "Unlock p = p\<lparr>mutex := False\<rparr>"

definition emit :: "event \<Rightarrow> 'w Pool \<Rightarrow> 'w Pool" where
  "emit e p = p\<lparr>trace := trace p @ [e], held_log := held_log p @ [mutex p]\<rparr>"

definition call_create :: "'w Pool \<Rightarrow> (ptr \<times> error option) \<times> 'w Pool" where
  "call_create p =
     (case create p (world p) of
        ((r, err), w) \<Rightarrow> ((r, err), emit (CreateCall r err) (p\<lparr>world := w\<rparr>)))"

definition call_validate :: "ptr \<Rightarrow> 'w Pool \<Rightarrow> (bool \<times> error option) \<times> 'w Pool" where
  "call_validate r p =
     (case validate p r (world p) of
        ((ok, err), w) \<Rightarrow> ((ok, err), emit (ValidateCall r ok err) (p\<lparr>world := w\<rparr>)))"

definition call_expire :: "ptr \<Rightarrow> 'w Pool \<Rightarrow> 'w Pool" where
  "call_expire r p = emit (ExpireCall r) (p\<lparr>world := expire p r (world p)\<rparr>)"

definition call_Broadcast :: "'w Pool \<Rightarrow> 'w Pool" where
  "call_Broadcast p = emit BroadcastCall (p\<lparr>cond := Broadcast (cond p)\<rparr>)"

definition call_now :: "'w runtime \<Rightarrow> 'w Pool \<Rightarrow> time \<times> 'w Pool" where
  "call_now rt p = (case time_now rt (world p) of (t, w) \<Rightarrow> (t, p\<lparr>world := w\<rparr>))"

definition range_keys :: "'w runtime \<Rightarrow> 'w Pool \<Rightarrow> tmap \<Rightarrow> ptr list" where
  "range_keys rt p m = range_order rt (world p) (map fst m)"

text \<open>The functional options, lines 16 to 62, and the defaults of \<^verbatim>\<open>New\<close>.\<close>

datatype 'w pool_option =
    JanitorSleep int
  | IdleTimeout int
  | BorrowTimeout int
  | Size int
  | MinIdle int
  | ErrLogger "error \<Rightarrow> string \<Rightarrow> 'w \<Rightarrow> 'w"
  | Validate "ptr \<Rightarrow> 'w \<Rightarrow> (bool \<times> error option) \<times> 'w"

fun apply_option :: "'w pool_option \<Rightarrow> 'w Pool \<Rightarrow> 'w Pool" where
  "apply_option (JanitorSleep d) p = p\<lparr>janitorSleep := d\<rparr>"
| "apply_option (IdleTimeout d) p = p\<lparr>idleTimeout := d\<rparr>"
| "apply_option (BorrowTimeout d) p = p\<lparr>borrowTimeout := d\<rparr>"
| "apply_option (Size n) p = p\<lparr>size' := (if n < 1 then 1 else n)\<rparr>"
| "apply_option (MinIdle n) p = p\<lparr>minIdle := (if n < 0 then 0 else n)\<rparr>"
| "apply_option (ErrLogger f) p = p\<lparr>errLogger := f\<rparr>"
| "apply_option (Validate f) p = p\<lparr>validate := f\<rparr>"

definition second :: int where
  "second = 1000000000"

text \<open>
  The struct literal of lines 87 to 102. The default error logger writes to \<^verbatim>\<open>slog\<close>,
  which is outside the state modelled here. \<open>w\<close> is the state of the caller's world
  when \<^verbatim>\<open>New\<close> is called.
\<close>

definition new_pool ::
  "('w \<Rightarrow> (ptr \<times> error option) \<times> 'w) \<Rightarrow> (ptr \<Rightarrow> 'w \<Rightarrow> 'w) \<Rightarrow> 'w \<Rightarrow> 'w Pool" where
  "new_pool cr ex w =
     \<lparr>cond = NewCond, mutex = False, errLogger = (\<lambda>e m w. w),
      janitorSleep = 5 * second, idleTimeout = 30 * second, borrowTimeout = 30 * second,
      size' = 5, minIdle = 0, locked = [], unlocked = [],
      create = cr, validate = (\<lambda>r w. ((True, None), w)), expire = ex,
      closed = False, world = w, trace = [], held_log = []\<rparr>"

definition objectCount :: "'w Pool \<Rightarrow> int" where
  "objectCount p = int (length (unlocked p)) + int (length (locked p))"

text \<open>
  \<^verbatim>\<open>keepMinIdle\<close>, lines 243 to 258. The loop counts \<open>i\<close> from the number of idle
  resources up to \<^verbatim>\<open>p.minIdle\<close>; the size of the pool is compared once, before the loop.
\<close>

function keepMinIdle_loop :: "'w runtime \<Rightarrow> int \<Rightarrow> 'w Pool \<Rightarrow> error option \<times> 'w Pool" where
  "keepMinIdle_loop rt i p =
     (if i < minIdle p then
        (case call_create p of
           ((r, Some e), p1) \<Rightarrow> (Some (Wrapped ''on keeping the idle minimum'' e), p1)
         | ((r, None), p1) \<Rightarrow>
             (case call_now rt p1 of
                (t, p2) \<Rightarrow> keepMinIdle_loop rt (i + 1) (p2\<lparr>unlocked := AList.update r t (unlocked p2)\<rparr>)))
      else (None, p))"
  by pat_completeness auto
termination
proof (relation "measure (\<lambda>(rt, i, p). nat (minIdle p - i))")
  show "wf (measure (\<lambda>(rt :: 'w runtime, i, p :: 'w Pool). nat (minIdle p - i)))"
    by simp
next
  fix rt :: "'w runtime" and i :: int and p p1 p2 :: "'w Pool"
    and x1 :: "ptr \<times> error option" and r :: ptr and e :: "error option" and t :: time
  assume lt: "i < minIdle p"
    and c: "(x1, p1) = call_create p"
    and n: "(t, p2) = call_now rt p1"
  have "minIdle p1 = minIdle p"
    using c by (auto simp: call_create_def emit_def split: prod.splits)
  moreover have "minIdle p2 = minIdle p1"
    using n by (auto simp: call_now_def split: prod.splits)
  ultimately show "((rt, i + 1, p2\<lparr>unlocked := AList.update r t (unlocked p2)\<rparr>), (rt, i, p))
      \<in> measure (\<lambda>(rt, i, p). nat (minIdle p - i))"
    using lt by simp
qed

definition keepMinIdle :: "'w runtime \<Rightarrow> 'w Pool \<Rightarrow> error option \<times> 'w Pool" where
  "keepMinIdle rt p =
     (let idle = int (length (unlocked p))
      in if idle \<ge> minIdle p \<or> objectCount p \<ge> size' p then (None, p)
         else keepMinIdle_loop rt idle p)"

text \<open>
  \<^verbatim>\<open>Borrow\<close>, lines 146 to 189. The mutex is taken at line 147 and released by the
  deferred unlock at every return; around \<^verbatim>\<open>p.cond.Wait\<close> it is released (line 171) and
  taken again (line 173). So a call of \<^verbatim>\<open>Borrow\<close> is a sequence of critical sections:
  \<open>Borrow_enter\<close> from line 147 to a return or to line 171, then, each time the wait
  has returned, \<open>Borrow_wake\<close> from line 173 to a return or to line 171 again. Between
  two of them the goroutine is in \<^verbatim>\<open>Cond.Wait\<close> and other goroutines run.

  The outcome of a section: \<open>Done r err\<close> is \<^verbatim>\<open>return r, err\<close>; \<open>MustWait\<close> is reaching
  line 172.
\<close>

datatype borrow_outcome = Done ptr "error option" | MustWait

text \<open>
  The loop of lines 154 to 167 over the keys the \<^verbatim>\<open>range\<close> produces. A key whose entry
  is gone is not produced. The result is \<open>Some\<close> when the loop returned from
  \<^verbatim>\<open>Borrow\<close>, \<open>None\<close> when it ran to its end.
\<close>

fun Borrow_scan :: "'w runtime \<Rightarrow> ptr list \<Rightarrow> 'w Pool \<Rightarrow> (ptr \<times> error option) option \<times> 'w Pool" where
  "Borrow_scan rt [] p = (None, p)"
| "Borrow_scan rt (r # ks) p =
     (case map_of (unlocked p) r of
        None \<Rightarrow> Borrow_scan rt ks p
      | Some t0 \<Rightarrow>
          (case call_validate r p of
             ((ok, Some e), p1) \<Rightarrow> (Some (nil, Some (Wrapped ''on validating on borrow'' e)), p1)
           | ((ok, None), p1) \<Rightarrow>
               if ok then
                 (case call_now rt (p1\<lparr>unlocked := AList.delete r (unlocked p1)\<rparr>) of
                    (t, p2) \<Rightarrow> (Some (r, None), p2\<lparr>locked := AList.update r t (locked p2)\<rparr>))
               else Borrow_scan rt ks (call_expire r (p1\<lparr>unlocked := AList.delete r (unlocked p1)\<rparr>))))"

text \<open>
  Lines 170 to 188, from the test of the waiting loop on: either the pool is full and
  the goroutine unlocks and waits, or the resource is constructed.
\<close>

definition Borrow_capacity :: "'w runtime \<Rightarrow> 'w Pool \<Rightarrow> borrow_outcome \<times> 'w Pool" where
  "Borrow_capacity rt p =
     (if \<not> closed p \<and> objectCount p \<ge> size' p then (MustWait, Unlock p)
      else
        (case call_create p of
           ((r, Some e), p1) \<Rightarrow> (Done nil (Some (Wrapped ''on borrow'' e)), Unlock p1)
         | ((r, None), p1) \<Rightarrow>
             (case call_now rt p1 of
                (t, p2) \<Rightarrow> (Done r None, Unlock (p2\<lparr>locked := AList.update r t (locked p2)\<rparr>)))))"

definition Borrow_enter :: "'w runtime \<Rightarrow> 'w Pool \<Rightarrow> borrow_outcome \<times> 'w Pool" where
  "Borrow_enter rt p0 =
     (let p = Lock p0
      in if closed p then (Done nil (Some (Wrapped ''on borrow'' ErrPoolClosed)), Unlock p)
         else
           (case Borrow_scan rt (range_keys rt p (unlocked p)) p of
              (Some (r, err), p1) \<Rightarrow> (Done r err, Unlock p1)
            | (None, p1) \<Rightarrow> Borrow_capacity rt p1))"

text \<open>\<open>err\<close> is what \<^verbatim>\<open>p.cond.Wait(ctx)\<close> returned.\<close>

definition Borrow_wake :: "'w runtime \<Rightarrow> error option \<Rightarrow> 'w Pool \<Rightarrow> borrow_outcome \<times> 'w Pool" where
  "Borrow_wake rt err p0 =
     (let p = Lock p0
      in case err of
           Some e \<Rightarrow> (Done nil (Some (Wrapped ''on borrow while waiting'' e)), Unlock p)
         | None \<Rightarrow>
             if closed p then (Done nil (Some (Wrapped ''on borrow'' ErrPoolClosed)), Unlock p)
             else Borrow_capacity rt p)"

text \<open>\<^verbatim>\<open>Return\<close>, lines 191 to 204.\<close>

definition Return :: "'w runtime \<Rightarrow> ptr \<Rightarrow> 'w Pool \<Rightarrow> 'w Pool" where
  "Return rt r p0 =
     (let p = Lock p0
      in if closed p then Unlock p
         else if r \<noteq> nil then
           (case call_now rt (p\<lparr>locked := AList.delete r (locked p)\<rparr>) of
              (t, p1) \<Rightarrow> Unlock (call_Broadcast (p1\<lparr>unlocked := AList.update r t (unlocked p1)\<rparr>)))
         else Unlock p)"

text \<open>
  \<^verbatim>\<open>CleanUp\<close>, lines 206 to 241: the two loops, each threading \<^verbatim>\<open>expired\<close>, then
  \<^verbatim>\<open>keepMinIdle\<close>, whose error returns before the broadcast.
\<close>

fun CleanUp_unlocked :: "time \<Rightarrow> ptr list \<Rightarrow> bool \<Rightarrow> 'w Pool \<Rightarrow> bool \<times> 'w Pool" where
  "CleanUp_unlocked now [] expired p = (expired, p)"
| "CleanUp_unlocked now (r # ks) expired p =
     (case map_of (unlocked p) r of
        None \<Rightarrow> CleanUp_unlocked now ks expired p
      | Some t \<Rightarrow>
          if now - t > idleTimeout p
          then CleanUp_unlocked now ks True (call_expire r (p\<lparr>unlocked := AList.delete r (unlocked p)\<rparr>))
          else CleanUp_unlocked now ks expired p)"

fun CleanUp_locked :: "time \<Rightarrow> ptr list \<Rightarrow> bool \<Rightarrow> 'w Pool \<Rightarrow> bool \<times> 'w Pool" where
  "CleanUp_locked now [] expired p = (expired, p)"
| "CleanUp_locked now (r # ks) expired p =
     (case map_of (locked p) r of
        None \<Rightarrow> CleanUp_locked now ks expired p
      | Some t \<Rightarrow>
          if now - t > borrowTimeout p
          then CleanUp_locked now ks True (call_expire r (p\<lparr>locked := AList.delete r (locked p)\<rparr>))
          else CleanUp_locked now ks expired p)"

definition CleanUp :: "'w runtime \<Rightarrow> 'w Pool \<Rightarrow> error option \<times> 'w Pool" where
  "CleanUp rt p0 =
     (let p = Lock p0
      in if closed p then (None, Unlock p)
         else
           (case call_now rt p of
              (now, p1) \<Rightarrow>
                (case CleanUp_unlocked now (range_keys rt p1 (unlocked p1)) False p1 of
                   (expired1, p2) \<Rightarrow>
                     (case CleanUp_locked now (range_keys rt p2 (locked p2)) expired1 p2 of
                        (expired, p3) \<Rightarrow>
                          (case keepMinIdle rt p3 of
                             (Some e, p4) \<Rightarrow> (Some (Wrapped ''on cleanup'' e), Unlock p4)
                           | (None, p4) \<Rightarrow>
                               (None, Unlock (if expired then call_Broadcast p4 else p4)))))))"

text \<open>
  The janitor, lines 109 to 136. On the cancellation of the pool's context
  (\<open>closing\<close>): every key of \<^verbatim>\<open>p.locked\<close>, then every key of \<^verbatim>\<open>p.unlocked\<close> is expired
  (neither loop changes a map), the maps are replaced by empty ones and the pool is
  closed. On a tick (\<open>janitor_tick\<close>): \<^verbatim>\<open>CleanUp\<close>, its error going to the logger.
\<close>

fun expire_all :: "tmap \<Rightarrow> ptr list \<Rightarrow> 'w Pool \<Rightarrow> 'w Pool" where
  "expire_all m [] p = p"
| "expire_all m (r # ks) p =
     (case map_of m r of
        None \<Rightarrow> expire_all m ks p
      | Some t \<Rightarrow> expire_all m ks (call_expire r p))"

definition closing :: "'w runtime \<Rightarrow> 'w Pool \<Rightarrow> 'w Pool" where
  "closing rt p0 =
     (let p = Lock p0;
          p1 = expire_all (locked p) (range_keys rt p (locked p)) p;
          p2 = expire_all (unlocked p1) (range_keys rt p1 (unlocked p1)) p1
      in Unlock (p2\<lparr>locked := [], unlocked := [], closed := True\<rparr>))"

definition janitor_tick :: "'w runtime \<Rightarrow> 'w Pool \<Rightarrow> 'w Pool" where
  "janitor_tick rt p =
     (case CleanUp rt p of
        (Some e, p1) \<Rightarrow> p1\<lparr>world := errLogger p1 e ''failed to clean up the pool'' (world p1)\<rparr>
      | (None, p1) \<Rightarrow> p1)"

text \<open>
  \<^verbatim>\<open>New\<close>, lines 81 to 144. After the options, line 108 makes the ticker of the
  janitor: \<^verbatim>\<open>time.NewTicker\<close> panics when the interval is not positive, and no option
  clamps \<^verbatim>\<open>p.janitorSleep\<close>. A panic is a result of its own.
\<close>

datatype panic = NonPositiveInterval

text \<open>
  From line 109 on the janitor goroutine runs beside \<^verbatim>\<open>New\<close>, which goes on to call
  \<^verbatim>\<open>keepMinIdle\<close> at line 138 without taking the mutex. What the janitor does in the
  meantime is decided by the scheduler, the ticker and the context: at each point where
  \<^verbatim>\<open>New\<close> can be overtaken, a list of events of the janitor's \<^verbatim>\<open>select\<close>, a tick or
  the cancellation of the context; after the cancellation the goroutine has returned and
  nothing more happens. A schedule lists them point by point, and \<open>yield\<close> is such a
  point. The schedule \<open>[]\<close>, and any schedule of empty lists, is the janitor doing
  nothing before \<^verbatim>\<open>New\<close> returns.
\<close>

datatype janitor_event = Tick | Cancel

fun janitor_run :: "'w runtime \<Rightarrow> janitor_event list \<Rightarrow> 'w Pool \<Rightarrow> bool \<times> 'w Pool" where
  "janitor_run rt [] p = (False, p)"
| "janitor_run rt (Tick # js) p = janitor_run rt js (janitor_tick rt p)"
| "janitor_run rt (Cancel # js) p = (True, closing rt p)"

fun yield ::
  "'w runtime \<Rightarrow> janitor_event list list \<Rightarrow> 'w Pool \<Rightarrow> janitor_event list list \<times> 'w Pool" where
  "yield rt [] p = ([], p)"
| "yield rt (js # sched) p =
     (case janitor_run rt js p of (returned, q) \<Rightarrow> (if returned then [] else sched, q))"

text \<open>
  \<^verbatim>\<open>keepMinIdle\<close> as \<^verbatim>\<open>New\<close> runs it, lines 243 to 258 again, now with the points at
  which the janitor can take the mutex and run a whole critical section: before line
  244, between the return of \<^verbatim>\<open>create\<close> and the assignment of line 254, and after that
  assignment, before the next test of the loop (after the last one, that is before
  \<^verbatim>\<open>New\<close> returns). The janitor's section is one step here; as \<^verbatim>\<open>New\<close> does not hold
  the mutex, the two goroutines can also meet inside a statement (two writes to the
  same map), which Go leaves undefined and no theorem below speaks about.
\<close>

function New_loop ::
  "'w runtime \<Rightarrow> janitor_event list list \<Rightarrow> int \<Rightarrow> 'w Pool \<Rightarrow> error option \<times> 'w Pool" where
  "New_loop rt sched i p =
     (if i < minIdle p then
        (case call_create p of
           ((r, Some e), p1) \<Rightarrow> (Some (Wrapped ''on keeping the idle minimum'' e), p1)
         | ((r, None), p1) \<Rightarrow>
             (case yield rt sched p1 of
                (sched1, p2) \<Rightarrow>
                  (case call_now rt p2 of
                     (t, p3) \<Rightarrow>
                       (case yield rt sched1 (p3\<lparr>unlocked := AList.update r t (unlocked p3)\<rparr>) of
                          (sched2, p4) \<Rightarrow> New_loop rt sched2 (i + 1) p4))))
      else (None, p))"
  by pat_completeness auto
termination
proof (relation "measure (\<lambda>(rt, sched, i, p). nat (minIdle p - i))")
  show "wf (measure (\<lambda>(rt :: 'w runtime, sched :: janitor_event list list, i, p :: 'w Pool).
      nat (minIdle p - i)))"
    by simp
next
  fix rt :: "'w runtime" and sched sched1 sched2 :: "janitor_event list list" and i :: int
    and p p1 p2 p3 p4 :: "'w Pool" and x1 :: "ptr \<times> error option" and r :: ptr
    and e :: "error option" and t :: time
  assume lt: "i < minIdle p"
    and c: "(x1, p1) = call_create p"
    and y1: "(sched1, p2) = yield rt sched p1"
    and n: "(t, p3) = call_now rt p2"
    and y2: "(sched2, p4) = yield rt sched1 (p3\<lparr>unlocked := AList.update r t (unlocked p3)\<rparr>)"
  have ex: "minIdle (call_expire k q) = minIdle q" for k and q :: "'w Pool"
    by (simp add: call_expire_def emit_def)
  have cu: "minIdle (snd (CleanUp_unlocked now ks b q)) = minIdle q"
    for now ks b and q :: "'w Pool"
    by (induction now ks b q rule: CleanUp_unlocked.induct) (simp_all add: ex split: option.splits)
  have cl: "minIdle (snd (CleanUp_locked now ks b q)) = minIdle q"
    for now ks b and q :: "'w Pool"
    by (induction now ks b q rule: CleanUp_locked.induct) (simp_all add: ex split: option.splits)
  have kl: "minIdle (snd (keepMinIdle_loop rt j q)) = minIdle q" for j and q :: "'w Pool"
  proof (induction rt j q rule: keepMinIdle_loop.induct)
    case (1 rt j q)
    show ?case
    proof (cases "j < minIdle q")
      case False
      then show ?thesis by simp
    next
      case True
      obtain r' ce q1 where cc: "call_create q = ((r', ce), q1)" by (metis surj_pair)
      then have m1: "minIdle q1 = minIdle q"
        by (auto simp: call_create_def emit_def split: prod.splits)
      show ?thesis
      proof (cases ce)
        case (Some e')
        with cc True m1 show ?thesis by simp
      next
        case None
        obtain t' q2 where nn: "call_now rt q1 = (t', q2)" by (metis surj_pair)
        then have m2: "minIdle q2 = minIdle q1"
          by (auto simp: call_now_def split: prod.splits)
        from "1.IH" [OF True cc [symmetric] refl None nn [symmetric]] cc None nn True m1 m2
        show ?thesis by simp
      qed
    qed
  qed
  have km: "minIdle (snd (keepMinIdle rt q)) = minIdle q" for q :: "'w Pool"
    by (simp add: keepMinIdle_def Let_def kl del: keepMinIdle_loop.simps)
  have cln: "minIdle (snd (CleanUp rt q)) = minIdle q" for q :: "'w Pool"
  proof -
    obtain now q1 where a: "call_now rt (Lock q) = (now, q1)" by (metis surj_pair)
    obtain e1 q2 where b: "CleanUp_unlocked now (range_keys rt q1 (unlocked q1)) False q1 = (e1, q2)"
      by (metis surj_pair)
    obtain e2 q3 where d: "CleanUp_locked now (range_keys rt q2 (locked q2)) e1 q2 = (e2, q3)"
      by (metis surj_pair)
    obtain er q4 where f: "keepMinIdle rt q3 = (er, q4)" by (metis surj_pair)
    from a have "minIdle q1 = minIdle q"
      by (auto simp: call_now_def Lock_def split: prod.splits)
    moreover from b cu [of now "range_keys rt q1 (unlocked q1)" False q1]
    have "minIdle q2 = minIdle q1" by simp
    moreover from d cl [of now "range_keys rt q2 (locked q2)" e1 q2]
    have "minIdle q3 = minIdle q2" by simp
    moreover from f km [of q3] have "minIdle q4 = minIdle q3" by simp
    ultimately show ?thesis using a b d f
      by (simp add: CleanUp_def Let_def Lock_def Unlock_def call_Broadcast_def emit_def
          split: option.splits)
  qed
  have tk: "minIdle (janitor_tick rt q) = minIdle q" for q :: "'w Pool"
    using cln [of q] by (cases "CleanUp rt q") (auto simp: janitor_tick_def split: option.splits)
  have ea: "minIdle (expire_all m ks q) = minIdle q" for m ks and q :: "'w Pool"
    by (induction m ks q rule: expire_all.induct) (simp_all add: ex split: option.splits)
  have cg: "minIdle (closing rt q) = minIdle q" for q :: "'w Pool"
    by (simp add: closing_def Let_def Unlock_def Lock_def ea)
  have jr: "minIdle (snd (janitor_run rt js q)) = minIdle q" for js and q :: "'w Pool"
  proof (induction js arbitrary: q)
    case Nil
    show ?case by simp
  next
    case (Cons a js)
    show ?case using Cons [of "janitor_tick rt q"] by (cases a) (simp_all add: tk cg)
  qed
  have yd: "minIdle (snd (yield rt sc q)) = minIdle q" for sc and q :: "'w Pool"
  proof (cases sc)
    case Nil
    then show ?thesis by simp
  next
    case (Cons js sc')
    obtain b q' where j: "janitor_run rt js q = (b, q')" by (metis surj_pair)
    with jr [of js q] Cons show ?thesis by simp
  qed
  have "minIdle p1 = minIdle p"
    using c by (auto simp: call_create_def emit_def split: prod.splits)
  moreover have "minIdle p2 = minIdle p1"
  proof -
    from y1 have "p2 = snd (yield rt sched p1)" by (metis snd_conv)
    then show ?thesis by (simp add: yd)
  qed
  moreover have "minIdle p3 = minIdle p2"
    using n by (auto simp: call_now_def split: prod.splits)
  moreover have "minIdle p4 = minIdle p3"
  proof -
    from y2 have "p4 = snd (yield rt sched1 (p3\<lparr>unlocked := AList.update r t (unlocked p3)\<rparr>))"
      by (metis snd_conv)
    then show ?thesis by (simp add: yd)
  qed
  ultimately show "((rt, sched2, i + 1, p4), (rt, sched, i, p))
      \<in> measure (\<lambda>(rt, sched, i, p). nat (minIdle p - i))"
    using lt by simp
qed

definition New_keepMinIdle ::
  "'w runtime \<Rightarrow> janitor_event list list \<Rightarrow> 'w Pool \<Rightarrow> error option \<times> 'w Pool" where
  "New_keepMinIdle rt sched p0 =
     (case yield rt sched p0 of
        (sched1, p) \<Rightarrow>
          (let idle = int (length (unlocked p))
           in if idle \<ge> minIdle p \<or> objectCount p \<ge> size' p then (None, p)
              else New_loop rt sched1 idle p))"

text \<open>
  The result of \<^verbatim>\<open>New\<close>: the panic of line 108, or what it returns. On an error the
  caller gets \<^verbatim>\<open>nil, err\<close>; the pool the janitor still holds is the second component.
\<close>

definition New ::
  "'w runtime \<Rightarrow> janitor_event list list \<Rightarrow> ('w \<Rightarrow> (ptr \<times> error option) \<times> 'w) \<Rightarrow>
   (ptr \<Rightarrow> 'w \<Rightarrow> 'w) \<Rightarrow> 'w pool_option list \<Rightarrow> 'w \<Rightarrow> panic + error option \<times> 'w Pool" where
  "New rt sched cr ex options w =
     (let p = fold apply_option options (new_pool cr ex w)
      in if janitorSleep p \<le> 0 then Inl NonPositiveInterval
         else Inr (New_keepMinIdle rt sched p))"

section \<open>Runs of the pool\<close>

text \<open>
  What the goroutines around a pool do to it, one critical section at a time: a call
  of \<^verbatim>\<open>Borrow\<close> enters, a borrower enters \<^verbatim>\<open>Cond.Wait\<close>, a waiting borrower is woken
  with what \<^verbatim>\<open>Wait\<close> returned, a resource is returned, \<^verbatim>\<open>CleanUp\<close> is called, the
  janitor ticks, the context of the pool is cancelled. A run is a sequence of them,
  in the order in which they take the mutex. A run does not ask that the gate has
  fired before a borrower wakes: it allows every schedule of the goroutines, and more.
\<close>

datatype action =
    DoBorrow
  | DoWait
  | DoWake "error option"
  | DoReturn ptr
  | DoCleanUp
  | DoTick
  | DoClose

fun step :: "'w runtime \<Rightarrow> action \<Rightarrow> 'w Pool \<Rightarrow> 'w Pool" where
  "step rt DoBorrow p = snd (Borrow_enter rt p)"
| "step rt DoWait p = p\<lparr>cond := snd (Wait_enter (cond p))\<rparr>"
| "step rt (DoWake err) p = snd (Borrow_wake rt err p)"
| "step rt (DoReturn r) p = Return rt r p"
| "step rt DoCleanUp p = snd (CleanUp rt p)"
| "step rt DoTick p = janitor_tick rt p"
| "step rt DoClose p = closing rt p"

definition run :: "'w runtime \<Rightarrow> action list \<Rightarrow> 'w Pool \<Rightarrow> 'w Pool" where
  "run rt acts p = fold (step rt) acts p"

text \<open>The resources a trace shows as constructed, and as passed to \<^verbatim>\<open>expire\<close>.\<close>

fun created :: "event list \<Rightarrow> ptr list" where
  "created [] = []"
| "created (CreateCall r None # es) = r # created es"
| "created (e # es) = created es"

fun expired :: "event list \<Rightarrow> ptr list" where
  "expired [] = []"
| "expired (ExpireCall r # es) = r # expired es"
| "expired (e # es) = expired es"

text \<open>
  The calls made between two states of a pool, the second reached from the first; the
  resources a trace shows as validated; and the calls of a scan that finds the
  candidates \<open>ds\<close> invalid, one after the other: each is validated, reported invalid
  without an error, and expired.
\<close>

definition new_events :: "'w Pool \<Rightarrow> 'w Pool \<Rightarrow> event list" where
  "new_events p q = drop (length (trace p)) (trace q)"

fun validated :: "event list \<Rightarrow> ptr list" where
  "validated [] = []"
| "validated (ValidateCall r ok err # es) = r # validated es"
| "validated (e # es) = validated es"

fun discarded :: "ptr list \<Rightarrow> event list" where
  "discarded [] = []"
| "discarded (d # ds) = ValidateCall d False None # ExpireCall d # discarded ds"

text \<open>
  A \<^verbatim>\<open>range\<close> over a Go map produces every key once: the assumption on the runtime,
  where a theorem needs it.
\<close>

definition range_faithful :: "'w runtime \<Rightarrow> bool" where
  "range_faithful rt =
     (\<forall>w ks. distinct ks \<longrightarrow> distinct (range_order rt w ks) \<and> set (range_order rt w ks) = set ks)"

text \<open>A run in which every \<^verbatim>\<open>Return\<close> is given a resource that is borrowed at that moment.\<close>

fun returns_borrowed :: "'w runtime \<Rightarrow> action list \<Rightarrow> 'w Pool \<Rightarrow> bool" where
  "returns_borrowed rt [] p = True"
| "returns_borrowed rt (DoReturn r # acts) p =
     (r \<in> keys (locked p) \<and> returns_borrowed rt acts (step rt (DoReturn r) p))"
| "returns_borrowed rt (a # acts) p = returns_borrowed rt acts (step rt a p)"

text \<open>
  The life of a resource, read off a trace, \<open>D\<close> being the resources expired before
  it: no resource is expired twice, and none is validated after it was expired.
\<close>

fun lifecycle_ok :: "ptr list \<Rightarrow> event list \<Rightarrow> bool" where
  "lifecycle_ok D [] = True"
| "lifecycle_ok D (ExpireCall r # es) = (r \<notin> set D \<and> lifecycle_ok (r # D) es)"
| "lifecycle_ok D (ValidateCall r ok err # es) = (r \<notin> set D \<and> lifecycle_ok D es)"
| "lifecycle_ok D (e # es) = lifecycle_ok D es"

text \<open>
  The invariant of the pool between critical sections: each map has distinct keys, no
  resource is in both, every tracked and every expired resource was constructed, no
  tracked resource was expired, and the trace shows proper lives. \<open>keeps p q\<close>: \<open>q\<close>
  continues the trace of \<open>p\<close>, and has the invariant if \<open>p\<close> has it and the resources
  constructed up to \<open>q\<close> are different pointers.
\<close>

definition pool_inv :: "'w Pool \<Rightarrow> bool" where
  "pool_inv p =
     (distinct (map fst (unlocked p)) \<and> distinct (map fst (locked p))
      \<and> keys (unlocked p) \<inter> keys (locked p) = {}
      \<and> keys (unlocked p) \<union> keys (locked p) \<subseteq> set (created (trace p))
      \<and> set (expired (trace p)) \<subseteq> set (created (trace p))
      \<and> (keys (unlocked p) \<union> keys (locked p)) \<inter> set (expired (trace p)) = {}
      \<and> lifecycle_ok [] (trace p))"

definition keeps :: "'w Pool \<Rightarrow> 'w Pool \<Rightarrow> bool" where
  "keeps p q =
     ((\<exists>es. trace q = trace p @ es) \<and> (pool_inv p \<and> distinct (created (trace q)) \<longrightarrow> pool_inv q))"

text \<open>
  \<open>confined p q\<close>: \<open>q\<close> continues the trace of \<open>p\<close>, and every resource that \<open>q\<close>
  tracks or shows as expired was tracked or expired in \<open>p\<close>, or was constructed
  between the two.
\<close>

definition confined :: "'w Pool \<Rightarrow> 'w Pool \<Rightarrow> bool" where
  "confined p q =
     (\<exists>es. trace q = trace p @ es
        \<and> keys (unlocked q) \<union> keys (locked q) \<union> set (expired (trace q))
            \<subseteq> keys (unlocked p) \<union> keys (locked p) \<union> set (expired (trace p)) \<union> set (created es))"

text \<open>
  The bound on the resources of a pool. \<open>shrinks p q\<close>: from \<open>p\<close> to \<open>q\<close> the pool has
  not grown, and its configuration is the same; \<open>steady p q\<close>: the configuration is the
  same, and \<open>q\<close> is within the bound if \<open>p\<close> was.
\<close>

definition capacity_ok :: "'w Pool \<Rightarrow> bool" where
  "capacity_ok p = (objectCount p \<le> size' p)"

definition shrinks :: "'w Pool \<Rightarrow> 'w Pool \<Rightarrow> bool" where
  "shrinks p q = (objectCount q \<le> objectCount p \<and> size' q = size' p \<and> minIdle q = minIdle p
     \<and> closed q = closed p)"

definition steady :: "'w Pool \<Rightarrow> 'w Pool \<Rightarrow> bool" where
  "steady p q = (size' q = size' p \<and> minIdle q = minIdle p \<and> (capacity_ok p \<longrightarrow> capacity_ok q))"

subsection \<open>A caller for the examples\<close>

text \<open>
  As in the tests of the repository: a \<^verbatim>\<open>create\<close> that returns a new pointer each
  time, an \<^verbatim>\<open>expire\<close> that does nothing to the world. The world is a counter, which
  the clock and \<^verbatim>\<open>create\<close> advance; \<open>flaky_create\<close> fails from its second call on. The
  runtime of the examples ranges over a map in the order of its entries. Where an
  example starts from \<^verbatim>\<open>New\<close> with the schedule \<open>[]\<close>, the janitor did nothing before
  \<^verbatim>\<open>New\<close> returned.
\<close>

definition test_rt :: "nat runtime" where
  "test_rt = \<lparr>time_now = (\<lambda>w. (int w, Suc w)), range_order = (\<lambda>w ks. ks)\<rparr>"

definition test_create :: "nat \<Rightarrow> (ptr \<times> error option) \<times> nat" where
  "test_create w = ((Suc w, None), Suc w)"

definition test_expire :: "ptr \<Rightarrow> nat \<Rightarrow> nat" where
  "test_expire r w = w"

definition flaky_create :: "nat \<Rightarrow> (ptr \<times> error option) \<times> nat" where
  "flaky_create w =
     (if w < 2 then ((Suc w, None), Suc w) else ((nil, Some (External ''dial failed'')), w))"

text \<open>
  Two validation callbacks: \<open>stale_validate\<close> finds the resource 1 invalid;
  \<open>picky_validate\<close> finds 1 invalid and fails on 3.
\<close>

definition stale_validate :: "ptr \<Rightarrow> nat \<Rightarrow> (bool \<times> error option) \<times> nat" where
  "stale_validate r w = ((r \<noteq> 1, None), w)"

definition picky_validate :: "ptr \<Rightarrow> nat \<Rightarrow> (bool \<times> error option) \<times> nat" where
  "picky_validate r w =
     (if r = 1 then ((False, None), w)
      else if r = 3 then ((False, Some (External ''ping failed'')), w)
      else ((True, None), w))"

section \<open>Theorems about the gate\<close>

lemma gate_inv_NewCond: "gate_inv NewCond"
  by (simp add: gate_inv_def NewCond_def)

lemma gate_inv_Broadcast: "gate_inv s \<Longrightarrow> gate_inv (Broadcast s)"
  by (auto simp: gate_inv_def Broadcast_def)

lemma gate_inv_Wait_enter: "gate_inv s \<Longrightarrow> gate_inv (snd (Wait_enter s))"
  by (auto simp: gate_inv_def Wait_enter_def Let_def)

lemma Broadcast_closes_once:
  "gate_inv s \<Longrightarrow> \<not> cond_closed s \<Longrightarrow> ch s \<notin> closed_chans s"
  by (simp add: gate_inv_def)

text \<open>
  C1 (as amended). A broadcast with nobody waiting is not remembered. For every gate
  \<^verbatim>\<open>NewCond\<close>, \<^verbatim>\<open>Wait\<close> and \<^verbatim>\<open>Broadcast\<close> can produce: the next \<^verbatim>\<open>Wait\<close> after a
  \<^verbatim>\<open>Broadcast\<close>, with no other waiter in between, starts a new generation (a fresh
  channel, which is open, and the flag cleared) and blocks on it while its context is
  live; a further \<^verbatim>\<open>Wait\<close> captures the same channel; a cancelled context makes the
  wait return the context's error; and the next \<^verbatim>\<open>Broadcast\<close> releases the wait with
  no error.
\<close>

theorem gate_wait_after_broadcast_blocks:
  assumes "gate_inv s"
  shows "Wait_select None pick (fst (Wait_enter (Broadcast s))) (snd (Wait_enter (Broadcast s))) = Blocked
    \<and> fst (Wait_enter (Broadcast s)) \<notin> closed_chans (snd (Wait_enter (Broadcast s)))
    \<and> \<not> cond_closed (snd (Wait_enter (Broadcast s)))
    \<and> fst (Wait_enter (snd (Wait_enter (Broadcast s)))) = fst (Wait_enter (Broadcast s))
    \<and> Wait_select (Some e) pick (fst (Wait_enter (Broadcast s))) (snd (Wait_enter (Broadcast s)))
        = Returned (Some e)
    \<and> Wait_select None pick (fst (Wait_enter (Broadcast s)))
        (Broadcast (snd (Wait_enter (Broadcast s)))) = Returned None"
  using assms
  by (auto simp: gate_inv_def Wait_enter_def Broadcast_def Wait_select_def Let_def)

theorem gate_wait_after_broadcast_blocks_witness:
  "gate_inv NewCond
   \<and> Wait_select None False (fst (Wait_enter (Broadcast NewCond)))
       (snd (Wait_enter (Broadcast NewCond))) = Blocked
   \<and> Wait_select None False (fst (Wait_enter (Broadcast NewCond)))
       (Broadcast (snd (Wait_enter (Broadcast NewCond)))) = Returned None"
  using gate_wait_after_broadcast_blocks [OF gate_inv_NewCond, of False] gate_inv_NewCond
  by simp

text \<open>
  C1 as stated fails: on a new gate, after one \<^verbatim>\<open>Broadcast\<close> with nobody waiting, the
  next \<^verbatim>\<open>Wait\<close> (its context live) does not return; it blocks.
\<close>

theorem gate_broadcast_not_remembered:
  "Wait_select None False (fst (Wait_enter (Broadcast NewCond)))
     (snd (Wait_enter (Broadcast NewCond))) = Blocked
   \<and> Wait_select None False (fst (Wait_enter (Broadcast NewCond)))
     (snd (Wait_enter (Broadcast NewCond))) \<noteq> Returned None"
  by (simp add: Wait_enter_def Broadcast_def Wait_select_def NewCond_def)

section \<open>Theorems about the pool\<close>

lemmas call_defs = call_create_def call_now_def call_validate_def call_expire_def
  call_Broadcast_def emit_def

text \<open>
  While the janitor does nothing, \<^verbatim>\<open>New\<close> runs \<^verbatim>\<open>keepMinIdle\<close> as \<^verbatim>\<open>CleanUp\<close> does.
\<close>

lemma yield_quiet: "concat sched = [] \<Longrightarrow> yield rt sched p = (tl sched, p)"
  by (cases sched) simp_all

lemma quiet_tl: "concat sched = [] \<Longrightarrow> concat (tl sched) = []"
  by (cases sched) simp_all

lemma New_loop_quiet:
  "concat sched = [] \<Longrightarrow> New_loop rt sched i p = keepMinIdle_loop rt i p"
proof (induction rt i p arbitrary: sched rule: keepMinIdle_loop.induct)
  case (1 rt i p)
  note q1 = quiet_tl [OF "1.prems"]
  note q2 = quiet_tl [OF q1]
  show ?case
  proof (cases "i < minIdle p")
    case False
    then show ?thesis by simp
  next
    case lt: True
    obtain r ce p1 where c: "call_create p = ((r, ce), p1)" by (metis surj_pair)
    show ?thesis
    proof (cases ce)
      case (Some e)
      with c lt show ?thesis by simp
    next
      case None
      obtain t p2 where n: "call_now rt p1 = (t, p2)" by (metis surj_pair)
      from "1.IH" [OF lt c [symmetric] refl None n [symmetric] q2]
      have "New_loop rt (tl (tl sched)) (i + 1) (p2\<lparr>unlocked := AList.update r t (unlocked p2)\<rparr>)
        = keepMinIdle_loop rt (i + 1) (p2\<lparr>unlocked := AList.update r t (unlocked p2)\<rparr>)" .
      with c None n lt show ?thesis
        by (simp add: yield_quiet [OF "1.prems"] yield_quiet [OF q1])
    qed
  qed
qed

lemma New_keepMinIdle_quiet:
  assumes "concat sched = []"
  shows "New_keepMinIdle rt sched p = keepMinIdle rt p"
  unfolding New_keepMinIdle_def keepMinIdle_def yield_quiet [OF assms]
  by (simp add: Let_def New_loop_quiet [OF quiet_tl [OF assms]]
      del: New_loop.simps keepMinIdle_loop.simps)

lemma New_keepMinIdle_nil: "New_keepMinIdle rt [] p = keepMinIdle rt p"
  by (simp add: New_keepMinIdle_quiet)

lemmas model_defs = New_def New_keepMinIdle_nil new_pool_def keepMinIdle_def objectCount_def
  call_defs second_def range_keys_def Borrow_enter_def Borrow_capacity_def Borrow_wake_def
  Return_def CleanUp_def closing_def janitor_tick_def run_def Lock_def Unlock_def Broadcast_def
  NewCond_def nil_def Let_def

lemmas test_defs = test_rt_def test_create_def test_expire_def flaky_create_def
  stale_validate_def picky_validate_def

lemma Unlock_Lock: "\<not> mutex p \<Longrightarrow> Unlock (Lock p) = p"
  by (simp add: Lock_def Unlock_def)

lemma closed_Lock [simp]: "closed (Lock p) = closed p"
  by (simp add: Lock_def)

lemma update_fresh: "k \<notin> fst ` set al \<Longrightarrow> AList.update k v al = al @ [(k, v)]"
  by (induction al) auto

subsection \<open>Maps and traces\<close>

lemma map_of_None_keys: "map_of al k = None \<longleftrightarrow> k \<notin> keys al"
  by (simp add: map_of_eq_None_iff keys_def)

lemma keys_filter: "keys [kv \<leftarrow> al. fst kv \<notin> S] = keys al - S"
  by (auto simp: keys_def)


lemma delete_filter: "AList.delete k al = [kv \<leftarrow> al. fst kv \<noteq> k]"
  by (induction al) (auto simp: AList.delete_eq)

lemma filter_delete: "filter P (AList.delete k al) = [kv \<leftarrow> al. fst kv \<noteq> k \<and> P kv]"
  by (simp add: delete_filter)

lemma keys_delete: "keys (AList.delete k al) = keys al - {k}"
  by (auto simp: delete_filter keys_def)

lemma keys_update: "keys (AList.update k v al) = insert k (keys al)"
  by (simp add: keys_def AList.dom_update)

lemma keys_empty_filter: "keys al \<subseteq> S \<Longrightarrow> [kv \<leftarrow> al. fst kv \<notin> S] = []"
  by (auto simp: keys_def filter_empty_conv)

lemma keys_filterD: "c \<in> keys [kv \<leftarrow> al. P (fst kv)] \<Longrightarrow> P c"
  by (auto simp: keys_def)

lemma new_events_append: "trace q = trace p @ es \<Longrightarrow> new_events p q = es"
  by (simp add: new_events_def)

lemma set_discarded:
  "set (discarded ds) = (\<lambda>d. ValidateCall d False None) ` set ds \<union> ExpireCall ` set ds"
  by (induction ds) auto

lemma validated_append: "validated (xs @ ys) = validated xs @ validated ys"
  by (induction xs rule: validated.induct) auto

lemma validated_discarded: "validated (discarded ds) = ds"
  by (induction ds) auto

lemma count_discarded_expire: "count_list (discarded ds) (ExpireCall c) = count_list ds c"
  by (induction ds) auto

lemma count_distinct: "distinct ds \<Longrightarrow> c \<in> set ds \<Longrightarrow> count_list ds c = 1"
  by (induction ds) auto

lemma map_of_filter_keep: "c \<notin> S \<Longrightarrow> map_of [kv \<leftarrow> al. fst kv \<notin> S] c = map_of al c"
  by (induction al) auto

subsection \<open>A closed pool\<close>

lemma Borrow_enter_closed:
  "closed p \<Longrightarrow> \<not> mutex p \<Longrightarrow>
   Borrow_enter rt p = (Done nil (Some (Wrapped ''on borrow'' ErrPoolClosed)), p)"
  by (simp add: Borrow_enter_def Let_def Unlock_Lock)

lemma Borrow_wake_closed:
  "closed p \<Longrightarrow> \<not> mutex p \<Longrightarrow>
   Borrow_wake rt None p = (Done nil (Some (Wrapped ''on borrow'' ErrPoolClosed)), p)"
  by (simp add: Borrow_wake_def Let_def Unlock_Lock)

lemma Return_closed: "closed p \<Longrightarrow> \<not> mutex p \<Longrightarrow> Return rt r p = p"
  by (simp add: Return_def Let_def Unlock_Lock)

lemma CleanUp_closed: "closed p \<Longrightarrow> \<not> mutex p \<Longrightarrow> CleanUp rt p = (None, p)"
  by (simp add: CleanUp_def Let_def Unlock_Lock)

lemma closing_closed:
  "closed (closing rt p) \<and> locked (closing rt p) = [] \<and> unlocked (closing rt p) = []
   \<and> \<not> mutex (closing rt p)"
  by (simp add: closing_def Let_def Unlock_def)

text \<open>
  C7. Whatever the pool \<open>p0\<close> was when its context was cancelled, and whatever the
  runtime did: after \<open>closing\<close> the pool is closed and both maps are empty; a
  \<^verbatim>\<open>Borrow\<close> returns \<^verbatim>\<open>nil\<close> and an error that wraps \<^verbatim>\<open>ErrPoolClosed\<close>; \<^verbatim>\<open>Return\<close> and
  \<^verbatim>\<open>CleanUp\<close> leave the pool exactly as it was, \<^verbatim>\<open>CleanUp\<close> returning no error. As
  the pool is left as it was, the same holds for every later call. (A borrower that was
  waiting when the pool closed and is woken without an error gets the same error.)
\<close>

theorem closed_pool_is_inert:
  "closed (closing rt0 p0) \<and> locked (closing rt0 p0) = [] \<and> unlocked (closing rt0 p0) = []
   \<and> Borrow_enter rt (closing rt0 p0)
       = (Done nil (Some (Wrapped ''on borrow'' ErrPoolClosed)), closing rt0 p0)
   \<and> error_is (Wrapped ''on borrow'' ErrPoolClosed) ErrPoolClosed
   \<and> Return rt r (closing rt0 p0) = closing rt0 p0
   \<and> CleanUp rt (closing rt0 p0) = (None, closing rt0 p0)
   \<and> Borrow_wake rt None (closing rt0 p0)
       = (Done nil (Some (Wrapped ''on borrow'' ErrPoolClosed)), closing rt0 p0)"
  using closing_closed [of rt0 p0]
  by (simp add: Borrow_enter_closed Return_closed CleanUp_closed Borrow_wake_closed)

subsection \<open>Returning a resource the pool does not track\<close>

text \<open>
  C3 (as amended). On a pool that is not closed, \<^verbatim>\<open>Return\<close> of a pointer other than
  \<^verbatim>\<open>nil\<close> that is a key of neither map leaves \<^verbatim>\<open>p.locked\<close> as it was and adds the
  pointer to \<^verbatim>\<open>p.unlocked\<close> with the current time; then it broadcasts.
\<close>

theorem Return_untracked_inserts:
  assumes "\<not> closed p" and "r \<noteq> nil"
    and "r \<notin> keys (unlocked p)" and "r \<notin> keys (locked p)"
  shows "locked (Return rt r p) = locked p
    \<and> unlocked (Return rt r p) = unlocked p @ [(r, fst (time_now rt (world p)))]
    \<and> trace (Return rt r p) = trace p @ [BroadcastCall]"
  using assms
  by (simp add: Return_def Let_def Lock_def Unlock_def call_now_def call_Broadcast_def emit_def
      update_fresh keys_def split: prod.splits)

theorem Return_untracked_inserts_witness:
  "\<not> closed (new_pool test_create test_expire (0::nat)) \<and> 7 \<noteq> nil
   \<and> 7 \<notin> keys (unlocked (new_pool test_create test_expire (0::nat)))
   \<and> 7 \<notin> keys (locked (new_pool test_create test_expire (0::nat)))
   \<and> locked (Return test_rt 7 (new_pool test_create test_expire 0)) = []
   \<and> unlocked (Return test_rt 7 (new_pool test_create test_expire 0)) = [(7, 0)]
   \<and> trace (Return test_rt 7 (new_pool test_create test_expire 0)) = [BroadcastCall]"
  using Return_untracked_inserts [of "new_pool test_create test_expire (0::nat)" 7 test_rt]
  by (simp add: new_pool_def nil_def test_rt_def keys_def)

text \<open>
  C3 as stated fails. A pool of size 1 with a borrow timeout of 0: the resource 1 is
  borrowed, \<^verbatim>\<open>CleanUp\<close> reclaims and expires it, so that the pool is open and tracks
  nothing; the borrower's \<^verbatim>\<open>Return\<close> of 1 then changes \<^verbatim>\<open>p.unlocked\<close>.
\<close>

theorem Return_after_eviction_changes_idle:
  "\<not> closed (run test_rt [DoBorrow, DoCleanUp]
               (snd (projr (New test_rt [] test_create test_expire [Size 1, BorrowTimeout 0] 0))))
   \<and> locked (run test_rt [DoBorrow, DoCleanUp]
               (snd (projr (New test_rt [] test_create test_expire [Size 1, BorrowTimeout 0] 0)))) = []
   \<and> unlocked (run test_rt [DoBorrow, DoCleanUp]
               (snd (projr (New test_rt [] test_create test_expire [Size 1, BorrowTimeout 0] 0)))) = []
   \<and> unlocked (Return test_rt 1 (run test_rt [DoBorrow, DoCleanUp]
               (snd (projr (New test_rt [] test_create test_expire [Size 1, BorrowTimeout 0] 0))))) = [(1, 3)]"
  by (simp add: model_defs test_defs)

subsection \<open>The top-up of the idle minimum\<close>

text \<open>
  What the loop of \<^verbatim>\<open>keepMinIdle\<close> does, from the counter \<open>i\<close>: it calls \<^verbatim>\<open>create\<close>
  for the resources \<open>rs\<close>, one after the other, and puts each into \<^verbatim>\<open>p.unlocked\<close>;
  it ends without an error after \<open>minIdle - i\<close> of them, or at the first call of
  \<^verbatim>\<open>create\<close> that fails, with that error wrapped.
\<close>

lemma keepMinIdle_loop_spec:
  "keepMinIdle_loop rt i p = (err, q) \<Longrightarrow>
   \<exists>rs fl. trace q = trace p @ map (\<lambda>r. CreateCall r None) rs @ fl
     \<and> (case err of None \<Rightarrow> fl = [] \<and> int (length rs) = max 0 (minIdle p - i)
         | Some e \<Rightarrow> \<exists>r e' w'. fl = [CreateCall r (Some e')] \<and> e = Wrapped ''on keeping the idle minimum'' e'
              \<and> fst (create p w') = (r, Some e') \<and> int (length rs) < minIdle p - i)
     \<and> fst ` set (unlocked q) = fst ` set (unlocked p) \<union> set rs
     \<and> (distinct (map fst (unlocked p) @ rs) \<longrightarrow> map fst (unlocked q) = map fst (unlocked p) @ rs)
     \<and> locked q = locked p \<and> closed q = closed p \<and> mutex q = mutex p \<and> cond q = cond p
     \<and> create q = create p"
proof (induction rt i p arbitrary: err q rule: keepMinIdle_loop.induct)
  case (1 rt i p)
  show ?case
  proof (cases "i < minIdle p")
    case False
    with "1.prems" show ?thesis by simp
  next
    case lt: True
    obtain r ce p1 where c: "call_create p = ((r, ce), p1)"
      by (metis surj_pair)
    show ?thesis
    proof (cases ce)
      case (Some e')
      with c lt "1.prems" have "err = Some (Wrapped ''on keeping the idle minimum'' e')" "q = p1"
        by simp_all
      moreover from c Some have "trace p1 = trace p @ [CreateCall r (Some e')]"
        "unlocked p1 = unlocked p" "locked p1 = locked p" "closed p1 = closed p"
        "mutex p1 = mutex p" "cond p1 = cond p" "create p1 = create p"
        "fst (create p (world p)) = (r, Some e')"
        by (auto simp: call_defs split: prod.splits)
      ultimately show ?thesis using lt
        by (intro exI [of _ "[]"] exI [of _ "[CreateCall r (Some e')]"]) auto
    next
      case None
      obtain t p2 where n: "call_now rt p1 = (t, p2)"
        by (metis surj_pair)
      let ?p3 = "p2\<lparr>unlocked := AList.update r t (unlocked p2)\<rparr>"
      from c None n lt "1.prems" have rec: "keepMinIdle_loop rt (i + 1) ?p3 = (err, q)"
        by simp
      from c None n have p3: "trace ?p3 = trace p @ [CreateCall r None]"
        "unlocked ?p3 = AList.update r t (unlocked p)" "locked ?p3 = locked p"
        "closed ?p3 = closed p" "mutex ?p3 = mutex p" "cond ?p3 = cond p" "minIdle ?p3 = minIdle p"
        "create ?p3 = create p"
        by (auto simp: call_defs split: prod.splits)
      from "1.IH" [OF lt c [symmetric] refl None n [symmetric] rec]
      obtain rs fl where ih: "trace q = trace ?p3 @ map (\<lambda>r. CreateCall r None) rs @ fl"
        "(case err of None \<Rightarrow> fl = [] \<and> int (length rs) = max 0 (minIdle ?p3 - (i + 1))
         | Some e \<Rightarrow> \<exists>r e' w'. fl = [CreateCall r (Some e')] \<and> e = Wrapped ''on keeping the idle minimum'' e'
              \<and> fst (create ?p3 w') = (r, Some e') \<and> int (length rs) < minIdle ?p3 - (i + 1))"
        "fst ` set (unlocked q) = fst ` set (unlocked ?p3) \<union> set rs"
        "distinct (map fst (unlocked ?p3) @ rs) \<longrightarrow> map fst (unlocked q) = map fst (unlocked ?p3) @ rs"
        "locked q = locked ?p3" "closed q = closed ?p3" "mutex q = mutex ?p3" "cond q = cond ?p3"
        "create q = create ?p3"
        by blast
      have d: "distinct (map fst (unlocked p) @ r # rs) \<Longrightarrow>
          map fst (unlocked q) = map fst (unlocked p) @ r # rs"
      proof -
        assume dd: "distinct (map fst (unlocked p) @ r # rs)"
        then have "r \<notin> fst ` set (unlocked p)" by auto
        then have "AList.update r t (unlocked p) = unlocked p @ [(r, t)]"
          by (rule update_fresh)
        with ih(4) p3(2) dd show ?thesis by simp
      qed
      show ?thesis
        apply (intro exI [of _ "r # rs"] exI [of _ fl])
        using ih p3 lt d
        by (auto simp: AList.dom_update split: option.splits)
    qed
  qed
qed

lemma options_keep:
  "create (fold apply_option opts p) = create p \<and> unlocked (fold apply_option opts p) = unlocked p
   \<and> locked (fold apply_option opts p) = locked p \<and> trace (fold apply_option opts p) = trace p
   \<and> closed (fold apply_option opts p) = closed p \<and> world (fold apply_option opts p) = world p
   \<and> (1 \<le> size' p \<longrightarrow> 1 \<le> size' (fold apply_option opts p))
   \<and> (0 \<le> minIdle p \<longrightarrow> 0 \<le> minIdle (fold apply_option opts p))"
proof (induction opts arbitrary: p)
  case Nil
  show ?case by simp
next
  case (Cons a opts)
  show ?case using Cons.IH [of "apply_option a p"] by (cases a) auto
qed

text \<open>
  C5 (as amended). For every list of options that configures a positive interval of
  the janitor, with \<open>K\<close> the minimum idle count and a size of at least \<open>K\<close> that they
  configure, and the janitor doing nothing (no tick, no cancellation of the context)
  before \<^verbatim>\<open>New\<close> returns: \<^verbatim>\<open>New\<close> returns; if \<^verbatim>\<open>create\<close> never fails, it returns
  no error, it has called \<^verbatim>\<open>create\<close> exactly \<open>K\<close> times and nothing else, the
  resources \<open>rs\<close> that the calls returned are the keys of \<^verbatim>\<open>p.unlocked\<close>, and
  \<^verbatim>\<open>p.locked\<close> is empty; the idle resources are \<open>K\<close> in number when the \<open>K\<close> pointers
  are \<open>K\<close> different resources. And if a call of \<^verbatim>\<open>create\<close> failed, \<^verbatim>\<open>New\<close> returns
  that error, wrapped.
\<close>

theorem New_min_idle_top_up:
  fixes cfg :: "'w Pool"
  assumes cfg: "cfg = fold apply_option opts (new_pool cr ex w)"
    and K: "minIdle cfg = K" and cap: "K \<le> size' cfg"
    and pos: "0 < janitorSleep cfg" and quiet: "concat sched = []"
  shows "\<exists>err p. New rt sched cr ex opts w = Inr (err, p)
       \<and> ((\<forall>w'. snd (fst (cr w')) = None) \<longrightarrow>
            err = None
            \<and> (\<exists>rs. trace p = map (\<lambda>r. CreateCall r None) rs
                 \<and> int (length rs) = K \<and> locked p = [] \<and> keys (unlocked p) = set rs
                 \<and> (distinct rs \<longrightarrow> map fst (unlocked p) = rs)))
       \<and> (\<forall>r e. CreateCall r (Some e) \<in> set (trace p) \<longrightarrow>
             err = Some (Wrapped ''on keeping the idle minimum'' e))"
proof -
  have base: "create cfg = cr" "unlocked cfg = []" "locked cfg = []" "trace cfg = []"
    "1 \<le> size' cfg" "0 \<le> minIdle cfg"
    using options_keep [of opts "new_pool cr ex w"] by (simp_all add: cfg new_pool_def)
  obtain err q where km: "keepMinIdle rt cfg = (err, q)" by (metis surj_pair)
  have nw: "New rt sched cr ex opts w = Inr (err, q)"
    using pos km by (simp add: New_def cfg [symmetric] New_keepMinIdle_quiet [OF quiet])
  have shape: "\<exists>rs fl. trace q = map (\<lambda>r. CreateCall r None) rs @ fl
     \<and> (case err of None \<Rightarrow> fl = [] \<and> int (length rs) = K
         | Some e \<Rightarrow> \<exists>r e' w'. fl = [CreateCall r (Some e')]
              \<and> e = Wrapped ''on keeping the idle minimum'' e' \<and> fst (cr w') = (r, Some e'))
     \<and> fst ` set (unlocked q) = set rs
     \<and> (distinct rs \<longrightarrow> map fst (unlocked q) = rs) \<and> locked q = []"
  proof (cases "0 < K")
    case False
    with K base km have "err = None" "q = cfg"
      by (simp_all add: keepMinIdle_def)
    with base False K show ?thesis
      by (intro exI [of _ "[]"]) simp
  next
    case True
    with K base km have "keepMinIdle_loop rt 0 cfg = (err, q)"
      by (simp add: keepMinIdle_def objectCount_def)
    from keepMinIdle_loop_spec [OF this]
    obtain rs fl where "trace q = trace cfg @ map (\<lambda>r. CreateCall r None) rs @ fl"
      "case err of None \<Rightarrow> fl = [] \<and> int (length rs) = max 0 (minIdle cfg - 0)
         | Some e \<Rightarrow> \<exists>r e' w'. fl = [CreateCall r (Some e')] \<and> e = Wrapped ''on keeping the idle minimum'' e'
              \<and> fst (create cfg w') = (r, Some e') \<and> int (length rs) < minIdle cfg - 0"
      "fst ` set (unlocked q) = fst ` set (unlocked cfg) \<union> set rs"
      "distinct (map fst (unlocked cfg) @ rs) \<longrightarrow> map fst (unlocked q) = map fst (unlocked cfg) @ rs"
      "locked q = locked cfg"
      by blast
    with base K True show ?thesis
      by (intro exI [of _ rs] exI [of _ fl]) (auto split: option.splits)
  qed
  then obtain rs fl where sh: "trace q = map (\<lambda>r. CreateCall r None) rs @ fl"
     "case err of None \<Rightarrow> fl = [] \<and> int (length rs) = K
         | Some e \<Rightarrow> \<exists>r e' w'. fl = [CreateCall r (Some e')]
              \<and> e = Wrapped ''on keeping the idle minimum'' e' \<and> fst (cr w') = (r, Some e')"
     "fst ` set (unlocked q) = set rs"
     "distinct rs \<longrightarrow> map fst (unlocked q) = rs" "locked q = []"
    by blast
  have A: "err = None" if ok: "\<forall>w'. snd (fst (cr w')) = None"
  proof (cases err)
    case None
    then show ?thesis .
  next
    case (Some e)
    with sh(2) obtain r e' w' where "fst (cr w') = (r, Some e')" by auto
    with ok [rule_format, of w'] show ?thesis by simp
  qed
  have B: "err = Some (Wrapped ''on keeping the idle minimum'' e)"
    if ev: "CreateCall r (Some e) \<in> set (trace q)" for r e
  proof -
    from ev sh(1) have "CreateCall r (Some e) \<in> set fl" by auto
    with sh(2) show ?thesis by (auto split: option.splits)
  qed
  have C: "err = None
       \<and> (\<exists>rs. trace q = map (\<lambda>r. CreateCall r None) rs
             \<and> int (length rs) = K \<and> locked q = [] \<and> keys (unlocked q) = set rs
             \<and> (distinct rs \<longrightarrow> map fst (unlocked q) = rs))"
    if ok: "\<forall>w'. snd (fst (cr w')) = None"
  proof -
    from A [OF ok] have en: "err = None" .
    with sh have "trace q = map (\<lambda>r. CreateCall r None) rs \<and> int (length rs) = K
        \<and> locked q = [] \<and> keys (unlocked q) = set rs \<and> (distinct rs \<longrightarrow> map fst (unlocked q) = rs)"
      by (simp add: keys_def)
    with en show ?thesis by blast
  qed
  from nw B C show ?thesis by blast
qed

theorem New_min_idle_top_up_witness:
  "minIdle (fold apply_option [MinIdle 3] (new_pool test_create test_expire (0::nat))) = 3
   \<and> (3::int) \<le> size' (fold apply_option [MinIdle 3] (new_pool test_create test_expire (0::nat)))
   \<and> 0 < janitorSleep (fold apply_option [MinIdle 3] (new_pool test_create test_expire (0::nat)))
   \<and> concat ([[], []] :: janitor_event list list) = []
   \<and> (\<forall>w'. snd (fst (test_create w')) = None)
   \<and> fst (projr (New test_rt [[], []] test_create test_expire [MinIdle 3] 0)) = None
   \<and> map fst (unlocked (snd (projr (New test_rt [[], []] test_create test_expire [MinIdle 3] 0))))
       = [1, 3, 5]
   \<and> trace (snd (projr (New test_rt [[], []] test_create test_expire [MinIdle 3] 0)))
       = [CreateCall 1 None, CreateCall 3 None, CreateCall 5 None]
   \<and> CreateCall nil (Some (External ''dial failed''))
       \<in> set (trace (snd (projr (New test_rt [[], []] flaky_create test_expire [MinIdle 3] 0))))
   \<and> fst (projr (New test_rt [[], []] flaky_create test_expire [MinIdle 3] 0))
       = Some (Wrapped ''on keeping the idle minimum'' (External ''dial failed''))"
  using New_min_idle_top_up [where cfg = "fold apply_option [MinIdle 3] (new_pool test_create test_expire (0::nat))"
      and opts = "[MinIdle 3]" and cr = test_create and ex = test_expire and w = 0 and K = 3
      and sched = "[[], []]" and rt = test_rt]
    New_min_idle_top_up [where cfg = "fold apply_option [MinIdle 3] (new_pool flaky_create test_expire (0::nat))"
      and opts = "[MinIdle 3]" and cr = flaky_create and ex = test_expire and w = 0 and K = 3
      and sched = "[[], []]" and rt = test_rt]
  by (simp add: model_defs test_defs New_keepMinIdle_def)

text \<open>
  C5 as stated fails. With \<^verbatim>\<open>JanitorSleep(0)\<close> and an idle minimum of 3, \<^verbatim>\<open>New\<close>
  panics at line 108: it constructs nothing and returns neither a pool nor an error.
  With an idle minimum of 2 and a tick of the janitor after the first \<^verbatim>\<open>create\<close> of
  \<^verbatim>\<open>New\<close> has returned: \<^verbatim>\<open>CleanUp\<close> finds no idle resource and constructs two, and
  \<^verbatim>\<open>New\<close> goes on to add its own two; \<^verbatim>\<open>New\<close> returns a pool of four idle
  resources, after four calls of \<^verbatim>\<open>create\<close>. With an idle minimum of 1 and the
  context cancelled after the top-up, before \<^verbatim>\<open>New\<close> returns: the janitor has expired
  the resource, and \<^verbatim>\<open>New\<close> returns a closed pool that holds nothing.
\<close>

theorem New_top_up_not_exact:
  "New test_rt [] test_create test_expire [JanitorSleep 0, MinIdle 3] 0 = Inl NonPositiveInterval
   \<and> fst (projr (New test_rt [[], [Tick]] test_create test_expire [MinIdle 2] 0)) = None
   \<and> trace (snd (projr (New test_rt [[], [Tick]] test_create test_expire [MinIdle 2] 0)))
       = [CreateCall 1 None, CreateCall 3 None, CreateCall 5 None, CreateCall 8 None]
   \<and> map fst (unlocked (snd (projr (New test_rt [[], [Tick]] test_create test_expire [MinIdle 2] 0))))
       = [3, 5, 1, 8]
   \<and> fst (projr (New test_rt [[], [], [Cancel]] test_create test_expire [MinIdle 1] 0)) = None
   \<and> trace (snd (projr (New test_rt [[], [], [Cancel]] test_create test_expire [MinIdle 1] 0)))
       = [CreateCall 1 None, ExpireCall 1]
   \<and> unlocked (snd (projr (New test_rt [[], [], [Cancel]] test_create test_expire [MinIdle 1] 0)))
       = []
   \<and> closed (snd (projr (New test_rt [[], [], [Cancel]] test_create test_expire [MinIdle 1] 0)))"
  by (simp add: model_defs test_defs New_keepMinIdle_def)

text \<open>
  C2. The claim: between critical sections the idle and the borrowed resources
  together never exceed the size of the pool, and the top-up constructs nothing once
  they have reached it. The code does not keep it. A pool of size 2 with an idle
  minimum of 2: \<^verbatim>\<open>New\<close> constructs the resources 1 and 3, both are borrowed, and
  \<^verbatim>\<open>CleanUp\<close> reclaims 1, whose loan has timed out. One resource is left, so
  \<^verbatim>\<open>keepMinIdle\<close> passes its test of the size, and its loop constructs two: the pool
  of size 2 now holds three resources.
\<close>

theorem keepMinIdle_exceeds_size:
  "locked (run test_rt [DoBorrow, DoBorrow]
      (snd (projr (New test_rt [] test_create test_expire [Size 2, MinIdle 2, BorrowTimeout 1] 0))))
     = [(1, 4), (3, 5)]
   \<and> unlocked (run test_rt [DoBorrow, DoBorrow]
      (snd (projr (New test_rt [] test_create test_expire [Size 2, MinIdle 2, BorrowTimeout 1] 0)))) = []
   \<and> locked (run test_rt [DoBorrow, DoBorrow, DoCleanUp]
      (snd (projr (New test_rt [] test_create test_expire [Size 2, MinIdle 2, BorrowTimeout 1] 0))))
     = [(3, 5)]
   \<and> unlocked (run test_rt [DoBorrow, DoBorrow, DoCleanUp]
      (snd (projr (New test_rt [] test_create test_expire [Size 2, MinIdle 2, BorrowTimeout 1] 0))))
     = [(8, 8), (10, 10)]
   \<and> size' (run test_rt [DoBorrow, DoBorrow, DoCleanUp]
      (snd (projr (New test_rt [] test_create test_expire [Size 2, MinIdle 2, BorrowTimeout 1] 0)))) = 2
   \<and> objectCount (run test_rt [DoBorrow, DoBorrow, DoCleanUp]
      (snd (projr (New test_rt [] test_create test_expire [Size 2, MinIdle 2, BorrowTimeout 1] 0)))) = 3"
  by (simp add: model_defs test_defs)

text \<open>
  C8. The claim: a \<^verbatim>\<open>CleanUp\<close> on a pool that is not closed, in which a resource
  expired, broadcasts on the gate before it returns, also when the top-up fails. The
  code does not do so when the top-up fails. A pool with an idle minimum of 1 and an
  idle timeout of 0, whose \<^verbatim>\<open>create\<close> fails from its second call on: \<^verbatim>\<open>CleanUp\<close>
  expires the idle resource 1, the top-up fails, and \<^verbatim>\<open>CleanUp\<close> returns the error
  without a call of \<^verbatim>\<open>Broadcast\<close>: the gate is as it was.
\<close>

theorem CleanUp_error_skips_Broadcast:
  "\<not> closed (snd (projr (New test_rt [] flaky_create test_expire [MinIdle 1, IdleTimeout 0] 0)))
   \<and> unlocked (snd (projr (New test_rt [] flaky_create test_expire [MinIdle 1, IdleTimeout 0] 0))) = [(1, 1)]
   \<and> fst (CleanUp test_rt (snd (projr (New test_rt [] flaky_create test_expire [MinIdle 1, IdleTimeout 0] 0))))
      = Some (Wrapped ''on cleanup''
          (Wrapped ''on keeping the idle minimum'' (External ''dial failed'')))
   \<and> unlocked (snd (CleanUp test_rt
        (snd (projr (New test_rt [] flaky_create test_expire [MinIdle 1, IdleTimeout 0] 0))))) = []
   \<and> trace (snd (CleanUp test_rt
        (snd (projr (New test_rt [] flaky_create test_expire [MinIdle 1, IdleTimeout 0] 0)))))
      = [CreateCall 1 None, ExpireCall 1, CreateCall nil (Some (External ''dial failed''))]
   \<and> cond (snd (CleanUp test_rt
        (snd (projr (New test_rt [] flaky_create test_expire [MinIdle 1, IdleTimeout 0] 0)))))
      = cond (snd (projr (New test_rt [] flaky_create test_expire [MinIdle 1, IdleTimeout 0] 0)))"
  by (simp add: model_defs test_defs)

text \<open>
  C9. The claim: the mutex of the pool is never held during a call of \<^verbatim>\<open>create\<close>,
  \<^verbatim>\<open>validate\<close> or \<^verbatim>\<open>expire\<close>, nor while a borrower waits on the gate. The code holds
  it during the callbacks. Beside each call of a run, whether \<^verbatim>\<open>p.mutex\<close> was held:
  \<^verbatim>\<open>New\<close> calls \<^verbatim>\<open>create\<close> without it, but \<^verbatim>\<open>Borrow\<close> validates, and \<^verbatim>\<open>CleanUp\<close>
  expires and constructs, with the mutex held.
\<close>

theorem callbacks_run_under_mutex:
  "zip (trace (run test_rt [DoBorrow, DoReturn 1, DoCleanUp]
          (snd (projr (New test_rt [] test_create test_expire [MinIdle 1, IdleTimeout 0] 0)))))
       (held_log (run test_rt [DoBorrow, DoReturn 1, DoCleanUp]
          (snd (projr (New test_rt [] test_create test_expire [MinIdle 1, IdleTimeout 0] 0)))))
   = [(CreateCall 1 None, False), (ValidateCall 1 True None, True), (BroadcastCall, True),
      (ExpireCall 1, True), (CreateCall 6 None, True), (BroadcastCall, True)]"
  by (simp add: model_defs test_defs)

subsection \<open>The scan of the idle resources\<close>

text \<open>
  What the loop of \<^verbatim>\<open>Borrow\<close> does over the keys \<open>ks\<close>: it discards some candidates
  \<open>ds\<close>, each validated once, found invalid and expired, and then either runs out of
  candidates, or returns a candidate found valid, which moves to \<^verbatim>\<open>p.locked\<close>, or
  returns the error of a validation, whose candidate stays where it is.
\<close>

lemma Borrow_scan_spec:
  "Borrow_scan rt ks p = (res, q) \<Longrightarrow>
   \<exists>ds. distinct ds \<and> set ds \<subseteq> set ks \<inter> keys (unlocked p)
     \<and> (res = None \<longrightarrow> set ks \<inter> keys (unlocked p) \<subseteq> set ds)
     \<and> closed q = closed p \<and> mutex q = mutex p \<and> cond q = cond p \<and> size' q = size' p
     \<and> create q = create p
     \<and> (case res of
          None \<Rightarrow> trace q = trace p @ discarded ds
             \<and> unlocked q = [kv \<leftarrow> unlocked p. fst kv \<notin> set ds] \<and> locked q = locked p
        | Some (r, None) \<Rightarrow> trace q = trace p @ discarded ds @ [ValidateCall r True None]
             \<and> r \<notin> set ds \<and> r \<in> keys (unlocked p)
             \<and> unlocked q = [kv \<leftarrow> unlocked p. fst kv \<notin> set (r # ds)]
             \<and> (\<exists>t. locked q = AList.update r t (locked p))
        | Some (r, Some e) \<Rightarrow> r = nil
             \<and> (\<exists>c ok e'. e = Wrapped ''on validating on borrow'' e'
                  \<and> trace q = trace p @ discarded ds @ [ValidateCall c ok (Some e')]
                  \<and> c \<notin> set ds \<and> c \<in> keys (unlocked p)
                  \<and> unlocked q = [kv \<leftarrow> unlocked p. fst kv \<notin> set ds] \<and> locked q = locked p))"
proof (induction ks arbitrary: p)
  case Nil
  then show ?case by (intro exI [of _ "[]"]) auto
next
  case (Cons k ks)
  show ?case
  proof (cases "map_of (unlocked p) k")
    case None
    with Cons.prems have "Borrow_scan rt ks p = (res, q)" by simp
    from Cons.IH [OF this] obtain ds where ds: "distinct ds" "set ds \<subseteq> set ks \<inter> keys (unlocked p)"
     "res = None \<longrightarrow> set ks \<inter> keys (unlocked p) \<subseteq> set ds"
     "closed q = closed p \<and> mutex q = mutex p \<and> cond q = cond p \<and> size' q = size' p
     \<and> create q = create p"
     "(case res of
          None \<Rightarrow> trace q = trace p @ discarded ds
             \<and> unlocked q = [kv \<leftarrow> unlocked p. fst kv \<notin> set ds] \<and> locked q = locked p
        | Some (r, None) \<Rightarrow> trace q = trace p @ discarded ds @ [ValidateCall r True None]
             \<and> r \<notin> set ds \<and> r \<in> keys (unlocked p)
             \<and> unlocked q = [kv \<leftarrow> unlocked p. fst kv \<notin> set (r # ds)]
             \<and> (\<exists>t. locked q = AList.update r t (locked p))
        | Some (r, Some e) \<Rightarrow> r = nil
             \<and> (\<exists>c ok e'. e = Wrapped ''on validating on borrow'' e'
                  \<and> trace q = trace p @ discarded ds @ [ValidateCall c ok (Some e')]
                  \<and> c \<notin> set ds \<and> c \<in> keys (unlocked p)
                  \<and> unlocked q = [kv \<leftarrow> unlocked p. fst kv \<notin> set ds] \<and> locked q = locked p))"
      by blast
    from None have "k \<notin> keys (unlocked p)" by (simp add: map_of_None_keys)
    have "set (k # ks) \<inter> keys (unlocked p) = set ks \<inter> keys (unlocked p)"
      using \<open>k \<notin> keys (unlocked p)\<close> by auto
    with ds show ?thesis
      by (intro exI [of _ ds]) simp
  next
    case (Some t0)
    then have kin: "k \<in> keys (unlocked p)"
      using map_of_None_keys [of "unlocked p" k] by auto
    obtain ok ve p1 where v: "call_validate k p = ((ok, ve), p1)"
      by (metis surj_pair)
    then have p1: "trace p1 = trace p @ [ValidateCall k ok ve]" "unlocked p1 = unlocked p"
      "locked p1 = locked p" "closed p1 = closed p" "mutex p1 = mutex p" "cond p1 = cond p"
      "size' p1 = size' p" "create p1 = create p"
      by (auto simp: call_defs split: prod.splits)
    show ?thesis
    proof (cases ve)
      case (Some e)
      with v \<open>map_of (unlocked p) k = Some t0\<close> Cons.prems
      have "res = Some (nil, Some (Wrapped ''on validating on borrow'' e))" "q = p1"
        by simp_all
      with p1 Some kin show ?thesis
        by (intro exI [of _ "[]"]) auto
    next
      case None
      show ?thesis
      proof (cases ok)
        case True
        obtain t p2 where n: "call_now rt (p1\<lparr>unlocked := AList.delete k (unlocked p1)\<rparr>) = (t, p2)"
          by (metis surj_pair)
        with v None True \<open>map_of (unlocked p) k = Some t0\<close> Cons.prems
        have "res = Some (k, None)" "q = p2\<lparr>locked := AList.update k t (locked p2)\<rparr>"
          by simp_all
        moreover from n p1 have "trace p2 = trace p @ [ValidateCall k ok ve]"
          "unlocked p2 = AList.delete k (unlocked p)"
          "locked p2 = locked p" "closed p2 = closed p" "mutex p2 = mutex p" "cond p2 = cond p"
          "size' p2 = size' p" "create p2 = create p"
          by (auto simp: call_defs split: prod.splits)
        ultimately show ?thesis using None True kin
          by (intro exI [of _ "[]"]) (auto simp: delete_filter)
      next
        case False
        let ?p' = "call_expire k (p1\<lparr>unlocked := AList.delete k (unlocked p1)\<rparr>)"
        from v None False \<open>map_of (unlocked p) k = Some t0\<close> Cons.prems
        have rec: "Borrow_scan rt ks ?p' = (res, q)" by simp
        from p1 None False have p': "trace ?p' = trace p @ [ValidateCall k False None, ExpireCall k]"
          "unlocked ?p' = AList.delete k (unlocked p)"
          "locked ?p' = locked p" "closed ?p' = closed p" "mutex ?p' = mutex p" "cond ?p' = cond p"
          "size' ?p' = size' p" "create ?p' = create p"
          by (auto simp: call_defs)
        from Cons.IH [OF rec] obtain ds where ds: "distinct ds"
          "set ds \<subseteq> set ks \<inter> keys (unlocked ?p')"
          "res = None \<longrightarrow> set ks \<inter> keys (unlocked ?p') \<subseteq> set ds"
          "closed q = closed ?p' \<and> mutex q = mutex ?p' \<and> cond q = cond ?p' \<and> size' q = size' ?p'
             \<and> create q = create ?p'"
          "(case res of
          None \<Rightarrow> trace q = trace ?p' @ discarded ds
             \<and> unlocked q = [kv \<leftarrow> unlocked ?p'. fst kv \<notin> set ds] \<and> locked q = locked ?p'
        | Some (r, None) \<Rightarrow> trace q = trace ?p' @ discarded ds @ [ValidateCall r True None]
             \<and> r \<notin> set ds \<and> r \<in> keys (unlocked ?p')
             \<and> unlocked q = [kv \<leftarrow> unlocked ?p'. fst kv \<notin> set (r # ds)]
             \<and> (\<exists>t. locked q = AList.update r t (locked ?p'))
        | Some (r, Some e) \<Rightarrow> r = nil
             \<and> (\<exists>c ok e'. e = Wrapped ''on validating on borrow'' e'
                  \<and> trace q = trace ?p' @ discarded ds @ [ValidateCall c ok (Some e')]
                  \<and> c \<notin> set ds \<and> c \<in> keys (unlocked ?p')
                  \<and> unlocked q = [kv \<leftarrow> unlocked ?p'. fst kv \<notin> set ds] \<and> locked q = locked ?p'))"
          by blast
        have fl: "\<And>S. [kv \<leftarrow> AList.delete k (unlocked p). fst kv \<notin> S]
            = [kv \<leftarrow> unlocked p. fst kv \<notin> insert k S]"
          by (auto simp: delete_filter intro: filter_cong)
        from ds(2) p'(2) have knot: "k \<notin> set ds" and sub: "set ds \<subseteq> set ks \<inter> keys (unlocked p)"
          by (auto simp: keys_delete)
        show ?thesis
        proof (intro exI [of _ "k # ds"] conjI)
          show "distinct (k # ds)" using ds(1) knot by simp
          show "set (k # ds) \<subseteq> set (k # ks) \<inter> keys (unlocked p)"
            using sub kin by auto
          show "res = None \<longrightarrow> set (k # ks) \<inter> keys (unlocked p) \<subseteq> set (k # ds)"
            using ds(3) p'(2) by (auto simp: keys_delete)
          show "closed q = closed p" "mutex q = mutex p" "cond q = cond p" "size' q = size' p"
            "create q = create p"
            using ds(4) p' by simp_all
          show "case res of
          None \<Rightarrow> trace q = trace p @ discarded (k # ds)
             \<and> unlocked q = [kv \<leftarrow> unlocked p. fst kv \<notin> set (k # ds)] \<and> locked q = locked p
        | Some (r, None) \<Rightarrow> trace q = trace p @ discarded (k # ds) @ [ValidateCall r True None]
             \<and> r \<notin> set (k # ds) \<and> r \<in> keys (unlocked p)
             \<and> unlocked q = [kv \<leftarrow> unlocked p. fst kv \<notin> set (r # k # ds)]
             \<and> (\<exists>t. locked q = AList.update r t (locked p))
        | Some (r, Some e) \<Rightarrow> r = nil
             \<and> (\<exists>c ok e'. e = Wrapped ''on validating on borrow'' e'
                  \<and> trace q = trace p @ discarded (k # ds) @ [ValidateCall c ok (Some e')]
                  \<and> c \<notin> set (k # ds) \<and> c \<in> keys (unlocked p)
                  \<and> unlocked q = [kv \<leftarrow> unlocked p. fst kv \<notin> set (k # ds)] \<and> locked q = locked p)"
            using ds(5) p' knot
            by (auto simp: keys_delete filter_delete conj_ac split: option.splits)
        qed
      qed
    qed
  qed
qed

lemma Borrow_capacity_spec:
  "Borrow_capacity rt p = (out, q) \<Longrightarrow>
   unlocked q = unlocked p \<and> \<not> mutex q \<and> closed q = closed p \<and>
   (if \<not> closed p \<and> size' p \<le> objectCount p
    then out = MustWait \<and> trace q = trace p \<and> locked q = locked p
    else trace q = trace p @ [CreateCall (fst (fst (create p (world p)))) (snd (fst (create p (world p))))]
           \<and> (case snd (fst (create p (world p))) of
                 Some e \<Rightarrow> out = Done nil (Some (Wrapped ''on borrow'' e)) \<and> locked q = locked p
               | None \<Rightarrow> out = Done (fst (fst (create p (world p)))) None
                   \<and> locked q = AList.update (fst (fst (create p (world p))))
                        (fst (time_now rt (snd (create p (world p))))) (locked p)))"
  by (auto simp: Borrow_capacity_def Unlock_def call_defs split: if_splits prod.splits option.splits)

text \<open>
  C10. For every \<^verbatim>\<open>Borrow\<close> on a pool that is not closed in which \<^verbatim>\<open>validate\<close>
  returned an error \<open>e\<close> for a candidate \<open>c\<close>: \<^verbatim>\<open>Borrow\<close> returns \<^verbatim>\<open>nil\<close> and \<open>e\<close>,
  wrapped; \<open>c\<close> was an idle resource and still is, with its entry unchanged, and it
  was not passed to \<^verbatim>\<open>expire\<close>; the calls of this \<^verbatim>\<open>Borrow\<close> are those that discarded
  the earlier candidates \<open>ds\<close>, which are gone from \<^verbatim>\<open>p.unlocked\<close> and only they, and
  then the failing validation, which is the last call: no later candidate is
  examined. \<^verbatim>\<open>p.locked\<close> is unchanged.
\<close>

theorem Borrow_validation_error:
  assumes nc: "\<not> closed p"
    and be: "Borrow_enter rt p = (out, q)"
    and ev: "ValidateCall c ok (Some e) \<in> set (new_events p q)"
  shows "out = Done nil (Some (Wrapped ''on validating on borrow'' e))
    \<and> c \<in> keys (unlocked p) \<and> map_of (unlocked q) c = map_of (unlocked p) c
    \<and> ExpireCall c \<notin> set (new_events p q)
    \<and> (\<exists>ds. new_events p q = discarded ds @ [ValidateCall c ok (Some e)]
          \<and> unlocked q = [kv \<leftarrow> unlocked p. fst kv \<notin> set ds])
    \<and> locked q = locked p"
proof -
  let ?p = "Lock p"
  obtain res p1 where sc: "Borrow_scan rt (range_keys rt ?p (unlocked ?p)) ?p = (res, p1)"
    by (metis surj_pair)
  have lk: "trace ?p = trace p" "unlocked ?p = unlocked p" "locked ?p = locked p"
    by (simp_all add: Lock_def)
  from Borrow_scan_spec [OF sc] obtain ds where ds: "distinct ds"
    "set ds \<subseteq> set (range_keys rt ?p (unlocked ?p)) \<inter> keys (unlocked ?p)"
    "closed p1 = closed ?p"
    "case res of
          None \<Rightarrow> trace p1 = trace ?p @ discarded ds
             \<and> unlocked p1 = [kv \<leftarrow> unlocked ?p. fst kv \<notin> set ds] \<and> locked p1 = locked ?p
        | Some (r, None) \<Rightarrow> trace p1 = trace ?p @ discarded ds @ [ValidateCall r True None]
             \<and> r \<notin> set ds \<and> r \<in> keys (unlocked ?p)
             \<and> unlocked p1 = [kv \<leftarrow> unlocked ?p. fst kv \<notin> set (r # ds)]
             \<and> (\<exists>t. locked p1 = AList.update r t (locked ?p))
        | Some (r, Some e) \<Rightarrow> r = nil
             \<and> (\<exists>c ok e'. e = Wrapped ''on validating on borrow'' e'
                  \<and> trace p1 = trace ?p @ discarded ds @ [ValidateCall c ok (Some e')]
                  \<and> c \<notin> set ds \<and> c \<in> keys (unlocked ?p)
                  \<and> unlocked p1 = [kv \<leftarrow> unlocked ?p. fst kv \<notin> set ds] \<and> locked p1 = locked ?p)"
    by blast
  have nd: "ValidateCall c ok (Some e) \<notin> set (discarded ds)"
    by (auto simp: set_discarded)
  show ?thesis
  proof (cases res)
    case None
    with sc be nc have cap: "Borrow_capacity rt p1 = (out, q)"
      by (simp add: Borrow_enter_def Let_def)
    from ds(4) None lk have t1: "trace p1 = trace p @ discarded ds" by simp
    from Borrow_capacity_spec [OF cap] t1
    have "new_events p q = discarded ds \<or> (\<exists>r ce. new_events p q = discarded ds @ [CreateCall r ce])"
      by (auto simp: new_events_def split: if_splits)
    with ev nd show ?thesis by auto
  next
    case (Some a)
    obtain r re where a: "a = (r, re)" by (cases a)
    with Some sc be nc have oq: "out = Done r re" "q = Unlock p1"
      by (simp_all add: Borrow_enter_def Let_def)
    then have uq: "trace q = trace p1" "unlocked q = unlocked p1" "locked q = locked p1"
      by (simp_all add: Unlock_def)
    show ?thesis
    proof (cases re)
      case None
      with ds(4) Some a lk uq have "new_events p q = discarded ds @ [ValidateCall r True None]"
        by (simp add: new_events_def)
      with ev nd show ?thesis by auto
    next
      case (Some e1)
      with ds(4) \<open>res = Some a\<close> a lk uq obtain c' ok' e' where
        c': "r = nil" "e1 = Wrapped ''on validating on borrow'' e'"
        "trace q = trace p @ discarded ds @ [ValidateCall c' ok' (Some e')]"
        "c' \<notin> set ds" "c' \<in> keys (unlocked p)"
        "unlocked q = [kv \<leftarrow> unlocked p. fst kv \<notin> set ds]" "locked q = locked p"
        by auto
      from c'(3) have ne: "new_events p q = discarded ds @ [ValidateCall c' ok' (Some e')]"
        by (rule new_events_append)
      with ev nd have eq: "c' = c" "ok' = ok" "e' = e" by auto
      have "ExpireCall c \<notin> set (new_events p q)"
        using ne c'(4) eq by (auto simp: set_discarded)
      moreover have "map_of (unlocked q) c = map_of (unlocked p) c"
        using c'(4,6) eq by (simp add: map_of_filter_keep)
      ultimately show ?thesis
        using oq Some c' eq ne by auto
    qed
  qed
qed

theorem Borrow_validation_error_witness:
  "\<not> closed (snd (projr (New test_rt [] test_create test_expire [MinIdle 3, Validate picky_validate] 0)))
   \<and> ValidateCall 3 False (Some (External ''ping failed''))
       \<in> set (new_events (snd (projr (New test_rt [] test_create test_expire [MinIdle 3, Validate picky_validate] 0)))
           (snd (Borrow_enter test_rt
              (snd (projr (New test_rt [] test_create test_expire [MinIdle 3, Validate picky_validate] 0))))))
   \<and> fst (Borrow_enter test_rt
          (snd (projr (New test_rt [] test_create test_expire [MinIdle 3, Validate picky_validate] 0))))
       = Done nil (Some (Wrapped ''on validating on borrow'' (External ''ping failed'')))
   \<and> unlocked (snd (projr (New test_rt [] test_create test_expire [MinIdle 3, Validate picky_validate] 0)))
       = [(1, 1), (3, 3), (5, 5)]
   \<and> unlocked (snd (Borrow_enter test_rt
          (snd (projr (New test_rt [] test_create test_expire [MinIdle 3, Validate picky_validate] 0)))))
       = [(3, 3), (5, 5)]
   \<and> new_events (snd (projr (New test_rt [] test_create test_expire [MinIdle 3, Validate picky_validate] 0)))
           (snd (Borrow_enter test_rt
              (snd (projr (New test_rt [] test_create test_expire [MinIdle 3, Validate picky_validate] 0)))))
       = [ValidateCall 1 False None, ExpireCall 1,
          ValidateCall 3 False (Some (External ''ping failed''))]"
  using Borrow_validation_error [of
      "snd (projr (New test_rt [] test_create test_expire [MinIdle 3, Validate picky_validate] 0))" test_rt
      "fst (Borrow_enter test_rt
          (snd (projr (New test_rt [] test_create test_expire [MinIdle 3, Validate picky_validate] 0))))"
      "snd (Borrow_enter test_rt
          (snd (projr (New test_rt [] test_create test_expire [MinIdle 3, Validate picky_validate] 0))))"
      3 False "External ''ping failed''"]
  by (simp add: model_defs test_defs new_events_def picky_validate_def)

text \<open>
  C6. For every \<^verbatim>\<open>Borrow\<close> on a pool that is not closed in which \<^verbatim>\<open>validate\<close>
  reported a candidate \<open>c\<close> invalid, with no error (the \<^verbatim>\<open>range\<close> producing every key
  of \<^verbatim>\<open>p.unlocked\<close>): \<open>c\<close> was an idle resource and no longer is; \<^verbatim>\<open>expire\<close> was called
  on \<open>c\<close> exactly once and \<^verbatim>\<open>validate\<close> exactly once; \<^verbatim>\<open>Borrow\<close> returns \<open>c\<close> only if
  its last call was a \<^verbatim>\<open>create\<close> that returned this very pointer, never from the idle
  resources. And the scan went on: either it ended at another candidate \<open>c'\<close>, found
  valid and returned (now borrowed), or at another candidate whose validation failed;
  or no idle resource is left, and then \<^verbatim>\<open>Borrow\<close> waits when the borrowed resources
  fill the pool, and otherwise calls \<^verbatim>\<open>create\<close> and returns its resource, now
  borrowed, or its error.
\<close>

theorem Borrow_discards_invalid:
  assumes nc: "\<not> closed p"
    and be: "Borrow_enter rt p = (out, q)"
    and ev: "ValidateCall c False None \<in> set (new_events p q)"
    and cover: "keys (unlocked p) \<subseteq> set (range_order rt (world p) (map fst (unlocked p)))"
  shows "c \<in> keys (unlocked p) \<and> c \<notin> keys (unlocked q)
    \<and> count_list (new_events p q) (ExpireCall c) = 1
    \<and> count_list (validated (new_events p q)) c = 1
    \<and> (out = Done c None \<longrightarrow> last (new_events p q) = CreateCall c None)
    \<and> ((\<exists>c'. c' \<noteq> c \<and> c' \<in> keys (unlocked p) \<and> out = Done c' None
            \<and> last (new_events p q) = ValidateCall c' True None \<and> c' \<in> keys (locked q))
       \<or> (\<exists>c' ok e. c' \<noteq> c \<and> c' \<in> keys (unlocked p)
            \<and> out = Done nil (Some (Wrapped ''on validating on borrow'' e))
            \<and> last (new_events p q) = ValidateCall c' ok (Some e))
       \<or> (unlocked q = []
            \<and> (if size' p \<le> int (length (locked p)) then out = MustWait \<and> locked q = locked p
                else \<exists>r ce. last (new_events p q) = CreateCall r ce
                  \<and> (case ce of
                        None \<Rightarrow> out = Done r None \<and> r \<in> keys (locked q)
                      | Some e \<Rightarrow> out = Done nil (Some (Wrapped ''on borrow'' e))
                          \<and> locked q = locked p))))"
proof -
  let ?p = "Lock p"
  obtain res p1 where sc: "Borrow_scan rt (range_keys rt ?p (unlocked ?p)) ?p = (res, p1)"
    by (metis surj_pair)
  have lk: "trace ?p = trace p" "unlocked ?p = unlocked p" "locked ?p = locked p"
    "size' ?p = size' p" "closed ?p = closed p"
    by (simp_all add: Lock_def)
  have rk: "range_keys rt ?p (unlocked ?p) = range_order rt (world p) (map fst (unlocked p))"
    by (simp add: range_keys_def Lock_def)
  from Borrow_scan_spec [OF sc] obtain ds where ds: "distinct ds"
    "set ds \<subseteq> set (range_keys rt ?p (unlocked ?p)) \<inter> keys (unlocked ?p)"
    "res = None \<longrightarrow> set (range_keys rt ?p (unlocked ?p)) \<inter> keys (unlocked ?p) \<subseteq> set ds"
    "closed p1 = closed ?p" "size' p1 = size' ?p"
    "case res of
          None \<Rightarrow> trace p1 = trace ?p @ discarded ds
             \<and> unlocked p1 = [kv \<leftarrow> unlocked ?p. fst kv \<notin> set ds] \<and> locked p1 = locked ?p
        | Some (r, None) \<Rightarrow> trace p1 = trace ?p @ discarded ds @ [ValidateCall r True None]
             \<and> r \<notin> set ds \<and> r \<in> keys (unlocked ?p)
             \<and> unlocked p1 = [kv \<leftarrow> unlocked ?p. fst kv \<notin> set (r # ds)]
             \<and> (\<exists>t. locked p1 = AList.update r t (locked ?p))
        | Some (r, Some e) \<Rightarrow> r = nil
             \<and> (\<exists>c ok e'. e = Wrapped ''on validating on borrow'' e'
                  \<and> trace p1 = trace ?p @ discarded ds @ [ValidateCall c ok (Some e')]
                  \<and> c \<notin> set ds \<and> c \<in> keys (unlocked ?p)
                  \<and> unlocked p1 = [kv \<leftarrow> unlocked ?p. fst kv \<notin> set ds] \<and> locked p1 = locked ?p)"
    by blast
  from ds(2) lk have dsk: "set ds \<subseteq> keys (unlocked p)" by simp
  have in_ds: "c \<in> set ds" if "new_events p q = discarded ds @ tl"
    "ValidateCall c False None \<notin> set tl" for tl
    using ev that by (auto simp: set_discarded)
  have cnt: "count_list (new_events p q) (ExpireCall c) = 1
      \<and> count_list (validated (new_events p q)) c = 1"
    if ne: "new_events p q = discarded ds @ tl" and cd: "c \<in> set ds"
      and tl: "ExpireCall c \<notin> set tl" "c \<notin> set (validated tl)" for tl
    using ne cd tl ds(1)
    by (simp add: count_discarded_expire validated_append validated_discarded count_distinct)
  show ?thesis
  proof (cases res)
    case None
    with sc be nc have cap: "Borrow_capacity rt p1 = (out, q)"
      by (simp add: Borrow_enter_def Let_def)
    from ds(6) None lk have p1: "trace p1 = trace p @ discarded ds"
      "unlocked p1 = [kv \<leftarrow> unlocked p. fst kv \<notin> set ds]" "locked p1 = locked p"
      by simp_all
    from ds(3) None cover rk lk have "keys (unlocked p) \<subseteq> set ds" by auto
    then have emp: "unlocked p1 = []" using p1(2) by (simp add: keys_empty_filter)
    have oc: "objectCount p1 = int (length (locked p))"
      using emp p1(3) by (simp add: objectCount_def)
    note cs = Borrow_capacity_spec [OF cap]
    have uq: "unlocked q = []" using cs emp by simp
    show ?thesis
    proof (cases "size' p \<le> int (length (locked p))")
      case True
      with cs oc nc ds(4,5) lk p1 have w: "out = MustWait" "trace q = trace p @ discarded ds @ []"
        "locked q = locked p"
        by simp_all
      from w(2) have ne: "new_events p q = discarded ds @ []" by (rule new_events_append)
      from in_ds [OF ne] have cd: "c \<in> set ds" by simp
      have rc: True ..
      have "c \<in> keys (unlocked p)" using cd dsk by auto
      moreover have "c \<notin> keys (unlocked q)" using uq by (simp add: keys_def)
      moreover have "count_list (new_events p q) (ExpireCall c) = 1
          \<and> count_list (validated (new_events p q)) c = 1"
        using cnt [OF ne cd] rc by simp
      ultimately show ?thesis using uq w True by simp
    next
      case False
      let ?r = "fst (fst (create p1 (world p1)))" and ?ce = "snd (fst (create p1 (world p1)))"
      from False cs oc nc ds(4,5) lk p1
      have w: "trace q = trace p @ discarded ds @ [CreateCall ?r ?ce]"
        "case ?ce of
           Some e \<Rightarrow> out = Done nil (Some (Wrapped ''on borrow'' e)) \<and> locked q = locked p1
         | None \<Rightarrow> out = Done ?r None
             \<and> locked q = AList.update ?r (fst (time_now rt (snd (create p1 (world p1))))) (locked p1)"
        by simp_all
      from w(1) have ne: "new_events p q = discarded ds @ [CreateCall ?r ?ce]"
        by (rule new_events_append)
      from in_ds [OF ne] have cd: "c \<in> set ds" by simp
      have c3: "unlocked q = [] \<and> (if size' p \<le> int (length (locked p))
                then out = MustWait \<and> locked q = locked p
                else \<exists>r ce. last (new_events p q) = CreateCall r ce
                  \<and> (case ce of
                        None \<Rightarrow> out = Done r None \<and> r \<in> keys (locked q)
                      | Some e \<Rightarrow> out = Done nil (Some (Wrapped ''on borrow'' e))
                          \<and> locked q = locked p))"
      proof -
        have "last (new_events p q) = CreateCall ?r ?ce \<and> (case ?ce of
                        None \<Rightarrow> out = Done ?r None \<and> ?r \<in> keys (locked q)
                      | Some e \<Rightarrow> out = Done nil (Some (Wrapped ''on borrow'' e))
                          \<and> locked q = locked p)"
          using w(2) ne p1(3) by (auto simp: keys_update split: option.splits)
        then have "\<exists>r ce. last (new_events p q) = CreateCall r ce
                  \<and> (case ce of
                        None \<Rightarrow> out = Done r None \<and> r \<in> keys (locked q)
                      | Some e \<Rightarrow> out = Done nil (Some (Wrapped ''on borrow'' e))
                          \<and> locked q = locked p)"
          by blast
        with uq False show ?thesis by simp
      qed
      have c4: "out = Done c None \<longrightarrow> last (new_events p q) = CreateCall c None"
        using w(2) ne by (auto split: option.splits)
      have rc: True ..
      have "c \<in> keys (unlocked p)" using cd dsk by auto
      moreover have "c \<notin> keys (unlocked q)" using uq by (simp add: keys_def)
      moreover have "count_list (new_events p q) (ExpireCall c) = 1
          \<and> count_list (validated (new_events p q)) c = 1"
        using cnt [OF ne cd] rc by simp
      ultimately show ?thesis using c3 c4 by blast
    qed
  next
    case (Some a)
    obtain r re where a: "a = (r, re)" by (cases a)
    with Some sc be nc have oq: "out = Done r re" "q = Unlock p1"
      by (simp_all add: Borrow_enter_def Let_def)
    then have uq: "trace q = trace p1" "unlocked q = unlocked p1" "locked q = locked p1"
      by (simp_all add: Unlock_def)
    show ?thesis
    proof (cases re)
      case None
      with ds(6) Some a lk uq obtain t where f: "trace q = trace p @ discarded ds @ [ValidateCall r True None]"
        "r \<notin> set ds" "r \<in> keys (unlocked p)"
        "unlocked q = [kv \<leftarrow> unlocked p. fst kv \<notin> set (r # ds)]"
        "locked q = AList.update r t (locked p)"
        by auto
      from f(1) have ne: "new_events p q = discarded ds @ [ValidateCall r True None]"
        by (rule new_events_append)
      from in_ds [OF ne] have cd: "c \<in> set ds" by simp
      with f(2) have rc: "r \<noteq> c" by auto
      have "c \<notin> keys (unlocked q)"
        using f(4) cd keys_filterD [of c "\<lambda>k. k \<notin> set (r # ds)" "unlocked p"] by auto
      moreover have "r \<in> keys (locked q)" using f(5) by (simp add: keys_update)
      moreover have "count_list (new_events p q) (ExpireCall c) = 1
          \<and> count_list (validated (new_events p q)) c = 1"
        using cnt [OF ne cd] rc by simp
      ultimately show ?thesis
        using cd dsk rc f(3) oq None ne by auto
    next
      case (Some e1)
      with ds(6) \<open>res = Some a\<close> a lk uq obtain c' ok' e' where
        c': "r = nil" "e1 = Wrapped ''on validating on borrow'' e'"
        "trace q = trace p @ discarded ds @ [ValidateCall c' ok' (Some e')]"
        "c' \<notin> set ds" "c' \<in> keys (unlocked p)"
        "unlocked q = [kv \<leftarrow> unlocked p. fst kv \<notin> set ds]" "locked q = locked p"
        by auto
      from c'(3) have ne: "new_events p q = discarded ds @ [ValidateCall c' ok' (Some e')]"
        by (rule new_events_append)
      from in_ds [OF ne] have cd: "c \<in> set ds" by simp
      with c'(4) have rc: "c' \<noteq> c" by auto
      have "c \<notin> keys (unlocked q)"
        using c'(6) cd keys_filterD [of c "\<lambda>k. k \<notin> set ds" "unlocked p"] by auto
      moreover have "count_list (new_events p q) (ExpireCall c) = 1
          \<and> count_list (validated (new_events p q)) c = 1"
        using cnt [OF ne cd] rc by simp
      ultimately show ?thesis
        using cd dsk rc c'(1,2,5) oq Some ne by auto
    qed
  qed
qed

theorem Borrow_discards_invalid_witness:
  "\<not> closed (snd (projr (New test_rt [] test_create test_expire [MinIdle 3, Validate stale_validate] 0)))
   \<and> ValidateCall 1 False None
       \<in> set (new_events (snd (projr (New test_rt [] test_create test_expire [MinIdle 3, Validate stale_validate] 0)))
           (snd (Borrow_enter test_rt
              (snd (projr (New test_rt [] test_create test_expire [MinIdle 3, Validate stale_validate] 0))))))
   \<and> keys (unlocked (snd (projr (New test_rt [] test_create test_expire [MinIdle 3, Validate stale_validate] 0))))
       \<subseteq> set (range_order test_rt
            (world (snd (projr (New test_rt [] test_create test_expire [MinIdle 3, Validate stale_validate] 0))))
            (map fst (unlocked
               (snd (projr (New test_rt [] test_create test_expire [MinIdle 3, Validate stale_validate] 0))))))
   \<and> fst (Borrow_enter test_rt
          (snd (projr (New test_rt [] test_create test_expire [MinIdle 3, Validate stale_validate] 0))))
       = Done 3 None
   \<and> unlocked (snd (Borrow_enter test_rt
          (snd (projr (New test_rt [] test_create test_expire [MinIdle 3, Validate stale_validate] 0)))))
       = [(5, 5)]
   \<and> new_events (snd (projr (New test_rt [] test_create test_expire [MinIdle 3, Validate stale_validate] 0)))
           (snd (Borrow_enter test_rt
              (snd (projr (New test_rt [] test_create test_expire [MinIdle 3, Validate stale_validate] 0)))))
       = [ValidateCall 1 False None, ExpireCall 1, ValidateCall 3 True None]"
  using Borrow_discards_invalid [of
      "snd (projr (New test_rt [] test_create test_expire [MinIdle 3, Validate stale_validate] 0))" test_rt
      "fst (Borrow_enter test_rt
          (snd (projr (New test_rt [] test_create test_expire [MinIdle 3, Validate stale_validate] 0))))"
      "snd (Borrow_enter test_rt
          (snd (projr (New test_rt [] test_create test_expire [MinIdle 3, Validate stale_validate] 0))))"
      1]
  by (simp add: model_defs test_defs new_events_def stale_validate_def keys_def)

subsection \<open>The life of a resource\<close>

text \<open>
  Every critical section keeps the invariant, as long as \<^verbatim>\<open>create\<close> hands out a
  different pointer each time: first the single moves of a resource, then the loops,
  then the operations.
\<close>

lemma created_append: "created (xs @ ys) = created xs @ created ys"
  by (induction xs rule: created.induct) auto

lemma expired_append: "expired (xs @ ys) = expired xs @ expired ys"
  by (induction xs rule: expired.induct) auto

lemma lifecycle_set: "set D = set D' \<Longrightarrow> lifecycle_ok D es = lifecycle_ok D' es"
proof (induction D es arbitrary: D' rule: lifecycle_ok.induct)
  case (2 D r es)
  from "2.prems" have "set (r # D) = set (r # D')" by simp
  from "2.IH" [OF this] "2.prems" show ?case by simp
qed auto

lemma lifecycle_append:
  "lifecycle_ok D (xs @ ys) = (lifecycle_ok D xs \<and> lifecycle_ok (expired xs @ D) ys)"
proof (induction D xs rule: lifecycle_ok.induct)
  case (2 D r es)
  have "lifecycle_ok (expired es @ r # D) ys = lifecycle_ok (r # expired es @ D) ys"
    by (rule lifecycle_set) auto
  with 2 show ?case by auto
qed auto

lemma lifecycle_expires:
  "lifecycle_ok D (map ExpireCall zs) = (distinct zs \<and> set zs \<inter> set D = {})"
  by (induction zs arbitrary: D) auto

lemma keeps_refl: "keeps p p"
  by (simp add: keeps_def)

lemma keeps_trans: "keeps p q \<Longrightarrow> keeps q r \<Longrightarrow> keeps p r"
  by (auto simp: keeps_def created_append)

lemma keeps_same:
  "trace q = trace p \<Longrightarrow> unlocked q = unlocked p \<Longrightarrow> locked q = locked p \<Longrightarrow> keeps p q"
  by (simp add: keeps_def pool_inv_def)

lemma keeps_validate:
  assumes "k \<in> keys (unlocked p)"
  shows "keeps p (snd (call_validate k p))"
proof -
  obtain ok ve p1 where v: "call_validate k p = ((ok, ve), p1)" by (metis surj_pair)
  then have "trace p1 = trace p @ [ValidateCall k ok ve]" "unlocked p1 = unlocked p"
    "locked p1 = locked p"
    by (auto simp: call_defs split: prod.splits)
  with assms v show ?thesis
    by (auto simp: keeps_def pool_inv_def created_append expired_append lifecycle_append)
qed

lemma keeps_lend:
  assumes "k \<in> keys (unlocked p)" and "call_now rt (p\<lparr>unlocked := AList.delete k (unlocked p)\<rparr>) = (t, p2)"
  shows "keeps p (p2\<lparr>locked := AList.update k t (locked p2)\<rparr>)"
proof -
  from assms(2) have "trace p2 = trace p" "unlocked p2 = AList.delete k (unlocked p)"
    "locked p2 = locked p"
    by (auto simp: call_defs split: prod.splits)
  with assms(1) show ?thesis
    by (auto simp: keeps_def pool_inv_def keys_delete keys_update AList.distinct_update
        AList.distinct_delete)
qed

lemma keeps_discard_unlocked:
  assumes "k \<in> keys (unlocked p)"
  shows "keeps p (call_expire k (p\<lparr>unlocked := AList.delete k (unlocked p)\<rparr>))"
  using assms
  by (auto simp: keeps_def pool_inv_def call_defs keys_delete AList.distinct_delete
      created_append expired_append lifecycle_append)

lemma keeps_discard_locked:
  assumes "k \<in> keys (locked p)"
  shows "keeps p (call_expire k (p\<lparr>locked := AList.delete k (locked p)\<rparr>))"
  using assms
  by (auto simp: keeps_def pool_inv_def call_defs keys_delete AList.distinct_delete
      created_append expired_append lifecycle_append)

lemma keeps_create_failed:
  assumes "call_create p = ((r, Some e), p1)"
  shows "keeps p p1"
proof -
  from assms have "trace p1 = trace p @ [CreateCall r (Some e)]" "unlocked p1 = unlocked p"
    "locked p1 = locked p"
    by (auto simp: call_defs split: prod.splits)
  then show ?thesis
    by (auto simp: keeps_def pool_inv_def created_append expired_append lifecycle_append)
qed

lemma keeps_create_locked:
  assumes "call_create p = ((r, None), p1)" and "call_now rt p1 = (t, p2)"
  shows "keeps p (p2\<lparr>locked := AList.update r t (locked p2)\<rparr>)"
proof -
  from assms have "trace p2 = trace p @ [CreateCall r None]" "unlocked p2 = unlocked p"
    "locked p2 = locked p"
    by (auto simp: call_defs split: prod.splits)
  then show ?thesis
    by (auto simp: keeps_def pool_inv_def created_append expired_append lifecycle_append
        keys_update AList.distinct_update)
qed

lemma keeps_create_unlocked:
  assumes "call_create p = ((r, None), p1)" and "call_now rt p1 = (t, p2)"
  shows "keeps p (p2\<lparr>unlocked := AList.update r t (unlocked p2)\<rparr>)"
proof -
  from assms have "trace p2 = trace p @ [CreateCall r None]" "unlocked p2 = unlocked p"
    "locked p2 = locked p"
    by (auto simp: call_defs split: prod.splits)
  then show ?thesis
    by (auto simp: keeps_def pool_inv_def created_append expired_append lifecycle_append
        keys_update AList.distinct_update)
qed

lemma keeps_return:
  assumes "r \<in> keys (locked p)" and "call_now rt (p\<lparr>locked := AList.delete r (locked p)\<rparr>) = (t, p1)"
  shows "keeps p (p1\<lparr>unlocked := AList.update r t (unlocked p1)\<rparr>)"
proof -
  from assms(2) have "trace p1 = trace p" "locked p1 = AList.delete r (locked p)"
    "unlocked p1 = unlocked p"
    by (auto simp: call_defs split: prod.splits)
  with assms(1) show ?thesis
    by (auto simp: keeps_def pool_inv_def keys_delete keys_update AList.distinct_update
        AList.distinct_delete)
qed

lemma keeps_Borrow_scan: "keeps p (snd (Borrow_scan rt ks p))"
proof (induction ks arbitrary: p)
  case Nil
  show ?case by (simp add: keeps_refl)
next
  case (Cons k ks)
  show ?case
  proof (cases "map_of (unlocked p) k")
    case None
    with Cons.IH [of p] show ?thesis by simp
  next
    case (Some t0)
    then have kin: "k \<in> keys (unlocked p)"
      using map_of_None_keys [of "unlocked p" k] by auto
    obtain ok ve p1 where v: "call_validate k p = ((ok, ve), p1)"
      by (metis surj_pair)
    from keeps_validate [OF kin] v have k1: "keeps p p1" by simp
    from v have u1: "unlocked p1 = unlocked p"
      by (auto simp: call_defs split: prod.splits)
    with kin have kin1: "k \<in> keys (unlocked p1)" by simp
    show ?thesis
    proof (cases ve)
      case (Some e)
      with v \<open>map_of (unlocked p) k = Some t0\<close> k1 show ?thesis by simp
    next
      case None
      show ?thesis
      proof (cases ok)
        case True
        obtain t p2 where n: "call_now rt (p1\<lparr>unlocked := AList.delete k (unlocked p1)\<rparr>) = (t, p2)"
          by (metis surj_pair)
        from keeps_trans [OF k1 keeps_lend [OF kin1 n]] v None True n
          \<open>map_of (unlocked p) k = Some t0\<close>
        show ?thesis by simp
      next
        case False
        let ?p' = "call_expire k (p1\<lparr>unlocked := AList.delete k (unlocked p1)\<rparr>)"
        from keeps_trans [OF k1 keeps_discard_unlocked [OF kin1]] have "keeps p ?p'" .
        from keeps_trans [OF this Cons.IH [of ?p']] v None False
          \<open>map_of (unlocked p) k = Some t0\<close>
        show ?thesis by simp
      qed
    qed
  qed
qed

lemma keeps_CleanUp_unlocked: "keeps p (snd (CleanUp_unlocked now ks ex p))"
proof (induction ks arbitrary: p ex)
  case Nil
  show ?case by (simp add: keeps_refl)
next
  case (Cons k ks)
  show ?case
  proof (cases "map_of (unlocked p) k")
    case None
    with Cons.IH [of p ex] show ?thesis by simp
  next
    case (Some t)
    then have kin: "k \<in> keys (unlocked p)"
      using map_of_None_keys [of "unlocked p" k] by auto
    show ?thesis
    proof (cases "now - t > idleTimeout p")
      case True
      from keeps_trans [OF keeps_discard_unlocked [OF kin] Cons.IH] Some True
      show ?thesis by simp
    next
      case False
      with Some Cons.IH [of p ex] show ?thesis by simp
    qed
  qed
qed

lemma keeps_CleanUp_locked: "keeps p (snd (CleanUp_locked now ks ex p))"
proof (induction ks arbitrary: p ex)
  case Nil
  show ?case by (simp add: keeps_refl)
next
  case (Cons k ks)
  show ?case
  proof (cases "map_of (locked p) k")
    case None
    with Cons.IH [of p ex] show ?thesis by simp
  next
    case (Some t)
    then have kin: "k \<in> keys (locked p)"
      using map_of_None_keys [of "locked p" k] by auto
    show ?thesis
    proof (cases "now - t > borrowTimeout p")
      case True
      from keeps_trans [OF keeps_discard_locked [OF kin] Cons.IH] Some True
      show ?thesis by simp
    next
      case False
      with Some Cons.IH [of p ex] show ?thesis by simp
    qed
  qed
qed

lemma keeps_keepMinIdle_loop: "keeps p (snd (keepMinIdle_loop rt i p))"
proof (induction rt i p rule: keepMinIdle_loop.induct)
  case (1 rt i p)
  show ?case
  proof (cases "i < minIdle p")
    case False
    then show ?thesis by (simp add: keeps_refl)
  next
    case lt: True
    obtain r ce p1 where c: "call_create p = ((r, ce), p1)"
      by (metis surj_pair)
    show ?thesis
    proof (cases ce)
      case (Some e)
      with c lt keeps_create_failed [of p r e p1] show ?thesis by simp
    next
      case None
      obtain t p2 where n: "call_now rt p1 = (t, p2)"
        by (metis surj_pair)
      let ?p3 = "p2\<lparr>unlocked := AList.update r t (unlocked p2)\<rparr>"
      from c None have c': "call_create p = ((r, None), p1)" by simp
      from "1.IH" [OF lt c [symmetric] refl None n [symmetric]]
      have "keeps ?p3 (snd (keepMinIdle_loop rt (i + 1) ?p3))" .
      from keeps_trans [OF keeps_create_unlocked [OF c' n] this] c None n lt
      show ?thesis by simp
    qed
  qed
qed

lemma keeps_keepMinIdle: "keeps p (snd (keepMinIdle rt p))"
  by (simp add: keepMinIdle_def Let_def keeps_refl keeps_keepMinIdle_loop
      del: keepMinIdle_loop.simps)

lemma keeps_Lock: "keeps p (Lock p)"
  by (rule keeps_same) (simp_all add: Lock_def)

lemma keeps_Unlock: "keeps p (Unlock p)"
  by (rule keeps_same) (simp_all add: Unlock_def)

lemma keeps_call_now: "keeps p (snd (call_now rt p))"
  by (rule keeps_same) (auto simp: call_defs split: prod.splits)

lemma keeps_call_Broadcast: "keeps p (call_Broadcast p)"
  by (auto simp: keeps_def pool_inv_def call_defs created_append expired_append lifecycle_append)

lemma keeps_Borrow_capacity: "keeps p (snd (Borrow_capacity rt p))"
proof (cases "\<not> closed p \<and> objectCount p \<ge> size' p")
  case True
  then show ?thesis by (simp add: Borrow_capacity_def keeps_Unlock)
next
  case False
  obtain r ce p1 where c: "call_create p = ((r, ce), p1)"
    by (metis surj_pair)
  show ?thesis
  proof (cases ce)
    case (Some e)
    with c False keeps_trans [OF keeps_create_failed [of p r e p1] keeps_Unlock]
    show ?thesis by (auto simp: Borrow_capacity_def)
  next
    case None
    obtain t p2 where n: "call_now rt p1 = (t, p2)"
      by (metis surj_pair)
    from c None have c': "call_create p = ((r, None), p1)" by simp
    from keeps_trans [OF keeps_create_locked [OF c' n] keeps_Unlock] c None n False
    show ?thesis by (auto simp: Borrow_capacity_def)
  qed
qed

lemma keeps_Borrow_enter: "keeps p (snd (Borrow_enter rt p))"
proof (cases "closed p")
  case True
  with keeps_trans [OF keeps_Lock keeps_Unlock] show ?thesis
    by (simp add: Borrow_enter_def Let_def)
next
  case False
  let ?p = "Lock p"
  obtain res p1 where sc: "Borrow_scan rt (range_keys rt ?p (unlocked ?p)) ?p = (res, p1)"
    by (metis surj_pair)
  from keeps_Borrow_scan [of ?p rt "range_keys rt ?p (unlocked ?p)"] sc
  have k1: "keeps p p1" using keeps_trans [OF keeps_Lock, of p p1] by simp
  show ?thesis
  proof (cases res)
    case None
    with sc False keeps_trans [OF k1 keeps_Borrow_capacity [of p1 rt]] show ?thesis
      by (simp add: Borrow_enter_def Let_def)
  next
    case (Some a)
    with sc False keeps_trans [OF k1 keeps_Unlock] show ?thesis
      by (simp add: Borrow_enter_def Let_def split: prod.splits)
  qed
qed

lemma keeps_Borrow_wake: "keeps p (snd (Borrow_wake rt err p))"
proof (cases err)
  case (Some e)
  with keeps_trans [OF keeps_Lock keeps_Unlock] show ?thesis
    by (simp add: Borrow_wake_def Let_def)
next
  case None
  show ?thesis
  proof (cases "closed p")
    case True
    with None keeps_trans [OF keeps_Lock keeps_Unlock] show ?thesis
      by (simp add: Borrow_wake_def Let_def)
  next
    case False
    with None keeps_trans [OF keeps_Lock keeps_Borrow_capacity [of "Lock p" rt]] show ?thesis
      by (simp add: Borrow_wake_def Let_def)
  qed
qed

lemma keeps_Return:
  assumes "r \<in> keys (locked p)"
  shows "keeps p (Return rt r p)"
proof (cases "closed p \<or> r = nil")
  case True
  with keeps_trans [OF keeps_Lock keeps_Unlock] show ?thesis
    by (auto simp: Return_def Let_def)
next
  case False
  let ?p = "Lock p"
  obtain t p1 where n: "call_now rt (?p\<lparr>locked := AList.delete r (locked ?p)\<rparr>) = (t, p1)"
    by (metis surj_pair)
  from assms have "r \<in> keys (locked ?p)" by (simp add: Lock_def)
  from keeps_trans [OF keeps_Lock keeps_return [OF this n]]
  have "keeps p (p1\<lparr>unlocked := AList.update r t (unlocked p1)\<rparr>)" .
  from keeps_trans [OF keeps_trans [OF this keeps_call_Broadcast] keeps_Unlock] n False
  show ?thesis by (simp add: Return_def Let_def)
qed

lemma keeps_CleanUp: "keeps p (snd (CleanUp rt p))"
proof (cases "closed p")
  case True
  with keeps_trans [OF keeps_Lock keeps_Unlock] show ?thesis
    by (simp add: CleanUp_def Let_def)
next
  case False
  let ?p = "Lock p"
  obtain now p1 where n: "call_now rt ?p = (now, p1)" by (metis surj_pair)
  obtain e1 p2 where c1: "CleanUp_unlocked now (range_keys rt p1 (unlocked p1)) False p1 = (e1, p2)"
    by (metis surj_pair)
  obtain e2 p3 where c2: "CleanUp_locked now (range_keys rt p2 (locked p2)) e1 p2 = (e2, p3)"
    by (metis surj_pair)
  obtain err p4 where km: "keepMinIdle rt p3 = (err, p4)" by (metis surj_pair)
  from keeps_call_now [of ?p rt] n have "keeps p p1"
    using keeps_trans [OF keeps_Lock, of p p1] by simp
  moreover from keeps_CleanUp_unlocked [of p1 now "range_keys rt p1 (unlocked p1)" False] c1
  have "keeps p1 p2" by simp
  moreover from keeps_CleanUp_locked [of p2 now "range_keys rt p2 (locked p2)" e1] c2
  have "keeps p2 p3" by simp
  moreover from keeps_keepMinIdle [of p3 rt] km have "keeps p3 p4" by simp
  ultimately have k4: "keeps p p4" by (blast intro: keeps_trans)
  show ?thesis
  proof (cases err)
    case (Some e)
    with n c1 c2 km False keeps_trans [OF k4 keeps_Unlock] show ?thesis
      by (simp add: CleanUp_def Let_def)
  next
    case None
    with n c1 c2 km False keeps_trans [OF k4 keeps_Unlock]
      keeps_trans [OF keeps_trans [OF k4 keeps_call_Broadcast] keeps_Unlock]
    show ?thesis
      by (simp add: CleanUp_def Let_def)
  qed
qed

lemma keeps_janitor_tick: "keeps p (janitor_tick rt p)"
proof -
  obtain err p1 where c: "CleanUp rt p = (err, p1)" by (metis surj_pair)
  with keeps_CleanUp [of p rt] have k: "keeps p p1" by simp
  have "keeps p1 (p1\<lparr>world := w\<rparr>)" for w
    by (rule keeps_same) simp_all
  from keeps_trans [OF k this] k c show ?thesis
    by (simp add: janitor_tick_def split: option.splits)
qed

lemma expire_all_spec:
  "trace (expire_all m ks p) = trace p @ map ExpireCall [k \<leftarrow> ks. k \<in> keys m]
   \<and> unlocked (expire_all m ks p) = unlocked p \<and> locked (expire_all m ks p) = locked p
   \<and> world (expire_all m ks p) = fold (expire p) [k \<leftarrow> ks. k \<in> keys m] (world p)
   \<and> expire (expire_all m ks p) = expire p"
proof (induction ks arbitrary: p)
  case Nil
  show ?case by simp
next
  case (Cons k ks)
  show ?case
  proof (cases "map_of m k")
    case None
    then have "k \<notin> keys m" by (simp add: map_of_None_keys)
    with None Cons.IH [of p] show ?thesis by simp
  next
    case (Some t)
    then have "k \<in> keys m" using map_of_None_keys [of m k] by auto
    with Some Cons.IH [of "call_expire k p"] show ?thesis
      by (simp add: call_defs)
  qed
qed

lemma set_expired: "set (expired es) = {r. ExpireCall r \<in> set es}"
  by (induction es rule: expired.induct) auto

lemma expired_map: "expired (map ExpireCall zs) = zs"
  by (induction zs) auto

lemma created_map_expire: "created (map ExpireCall zs) = []"
  by (induction zs) auto

lemma keys_image: "fst ` set m = keys m"
  by (simp add: keys_def)

lemma closing_expires_tracked:
  "\<exists>xs ys. new_events p (closing rt p) = map ExpireCall (xs @ ys)
     \<and> set xs \<subseteq> keys (locked p) \<and> set ys \<subseteq> keys (unlocked p)
     \<and> (range_faithful rt \<and> distinct (map fst (locked p)) \<and> distinct (map fst (unlocked p)) \<longrightarrow>
          distinct xs \<and> set xs = keys (locked p) \<and> distinct ys \<and> set ys = keys (unlocked p))"
proof -
  let ?P = "Lock p"
  let ?ks1 = "range_keys rt ?P (locked ?P)"
  let ?p1 = "expire_all (locked ?P) ?ks1 ?P"
  let ?ks2 = "range_keys rt ?p1 (unlocked ?p1)"
  let ?p2 = "expire_all (unlocked ?p1) ?ks2 ?p1"
  let ?xs = "[k \<leftarrow> ?ks1. k \<in> keys (locked p)]"
  let ?ys = "[k \<leftarrow> ?ks2. k \<in> keys (unlocked p)]"
  have P: "trace ?P = trace p" "unlocked ?P = unlocked p" "locked ?P = locked p"
    by (simp_all add: Lock_def)
  have p1: "trace ?p1 = trace p @ map ExpireCall ?xs" "unlocked ?p1 = unlocked p"
    "locked ?p1 = locked p"
    using expire_all_spec [of "locked ?P" ?ks1 ?P] P by simp_all
  have p2: "trace ?p2 = trace p @ map ExpireCall ?xs @ map ExpireCall ?ys"
    using expire_all_spec [of "unlocked ?p1" ?ks2 ?p1] p1 by simp
  have tr: "new_events p (closing rt p) = map ExpireCall (?xs @ ?ys)"
    using p2 by (simp add: closing_def Let_def Unlock_def new_events_def)
  have full: "distinct ?xs \<and> set ?xs = keys (locked p) \<and> distinct ?ys \<and> set ?ys = keys (unlocked p)"
    if rf: "range_faithful rt" and d: "distinct (map fst (locked p))" "distinct (map fst (unlocked p))"
  proof -
    note rfd = rf [unfolded range_faithful_def, rule_format]
    have e1: "?ks1 = range_order rt (world ?P) (map fst (locked p))"
      by (simp only: range_keys_def P)
    have e2: "?ks2 = range_order rt (world ?p1) (map fst (unlocked p))"
      using p1(2) by (simp add: range_keys_def [of rt ?p1])
    from rfd [OF d(1), of "world ?P"] have k1: "distinct ?ks1" "set ?ks1 = keys (locked p)"
      unfolding e1 by (simp_all add: keys_image)
    from rfd [OF d(2), of "world ?p1"] have k2: "distinct ?ks2" "set ?ks2 = keys (unlocked p)"
      unfolding e2 by (simp_all add: keys_image)
    from k1 k2 show ?thesis by auto
  qed
  have "set ?xs \<subseteq> keys (locked p)" "set ?ys \<subseteq> keys (unlocked p)" by auto
  with tr full show ?thesis by blast
qed

lemma keeps_closing:
  assumes rf: "range_faithful rt"
  shows "keeps p (closing rt p)"
proof -
  let ?P = "Lock p"
  let ?ks1 = "range_keys rt ?P (locked ?P)"
  let ?p1 = "expire_all (locked ?P) ?ks1 ?P"
  let ?ks2 = "range_keys rt ?p1 (unlocked ?p1)"
  let ?p2 = "expire_all (unlocked ?p1) ?ks2 ?p1"
  let ?xs = "[k \<leftarrow> ?ks1. k \<in> keys (locked p)]"
  let ?ys = "[k \<leftarrow> ?ks2. k \<in> keys (unlocked p)]"
  have P: "trace ?P = trace p" "unlocked ?P = unlocked p" "locked ?P = locked p"
    by (simp_all add: Lock_def)
  have p1: "trace ?p1 = trace p @ map ExpireCall ?xs" "unlocked ?p1 = unlocked p"
    "locked ?p1 = locked p"
    using expire_all_spec [of "locked ?P" ?ks1 ?P] P by simp_all
  have p2: "trace ?p2 = trace p @ map ExpireCall ?xs @ map ExpireCall ?ys"
    using expire_all_spec [of "unlocked ?p1" ?ks2 ?p1] p1 by simp
  have cl: "closing rt p = Unlock (?p2\<lparr>locked := [], unlocked := [], closed := True\<rparr>)"
    by (simp add: closing_def Let_def)
  have tr: "trace (closing rt p) = trace p @ map ExpireCall (?xs @ ?ys)"
    using p2 by (simp add: cl Unlock_def)
  have mp: "unlocked (closing rt p) = []" "locked (closing rt p) = []"
    by (simp_all add: cl Unlock_def)
  have inv: "pool_inv (closing rt p)" if pi: "pool_inv p"
  proof -
    from pi have d: "distinct (map fst (unlocked p))" "distinct (map fst (locked p))"
      and dj: "keys (unlocked p) \<inter> keys (locked p) = {}"
      and cr: "keys (unlocked p) \<union> keys (locked p) \<subseteq> set (created (trace p))"
      and ec: "set (expired (trace p)) \<subseteq> set (created (trace p))"
      and te: "(keys (unlocked p) \<union> keys (locked p)) \<inter> set (expired (trace p)) = {}"
      and lc: "lifecycle_ok [] (trace p)"
      by (simp_all add: pool_inv_def)
    note rfd = rf [unfolded range_faithful_def, rule_format]
    have e1: "?ks1 = range_order rt (world ?P) (map fst (locked p))"
      by (simp only: range_keys_def P)
    have e2: "?ks2 = range_order rt (world ?p1) (map fst (unlocked p))"
      using p1(2) by (simp add: range_keys_def [of rt ?p1])
    from rfd [OF d(2), of "world ?P"] have k1: "distinct ?ks1" "set ?ks1 = keys (locked p)"
      unfolding e1 by (simp_all add: keys_image)
    from rfd [OF d(1), of "world ?p1"] have k2: "distinct ?ks2" "set ?ks2 = keys (unlocked p)"
      unfolding e2 by (simp_all add: keys_image)
    from k1 have xs: "distinct ?xs" "set ?xs = keys (locked p)" by auto
    from k2 have ys: "distinct ?ys" "set ?ys = keys (unlocked p)" by auto
    have "lifecycle_ok [] (trace (closing rt p))"
      using lc xs ys dj te
      by (simp add: tr lifecycle_append lifecycle_expires del: map_append) blast
    moreover have "set (expired (trace (closing rt p))) \<subseteq> set (created (trace (closing rt p)))"
      using ec cr xs ys
      by (simp add: tr expired_append created_append expired_map created_map_expire
          del: map_append)
    ultimately show ?thesis
      by (simp add: pool_inv_def mp keys_def)
  qed
  from tr inv show ?thesis by (auto simp: keeps_def)
qed

lemma keeps_step:
  assumes "range_faithful rt" and "\<And>r. a = DoReturn r \<Longrightarrow> r \<in> keys (locked p)"
  shows "keeps p (step rt a p)"
proof (cases a)
  case DoWait
  show ?thesis unfolding DoWait by (rule keeps_same) simp_all
next
  case (DoReturn r)
  with assms(2) keeps_Return show ?thesis by simp
qed (simp_all add: keeps_Borrow_enter keeps_Borrow_wake keeps_CleanUp keeps_janitor_tick
    keeps_closing assms(1))

lemma keeps_run:
  assumes "range_faithful rt"
  shows "returns_borrowed rt acts p \<Longrightarrow> keeps p (run rt acts p)"
proof (induction acts arbitrary: p)
  case Nil
  show ?case by (simp add: run_def keeps_refl)
next
  case (Cons a acts)
  from Cons.prems have rb: "returns_borrowed rt acts (step rt a p)"
    and ok: "\<And>r. a = DoReturn r \<Longrightarrow> r \<in> keys (locked p)"
    by (cases a; simp)+
  from keeps_trans [OF keeps_step [OF assms ok] Cons.IH [OF rb]]
  show ?case by (simp add: run_def)
qed

text \<open>
  The janitor beside \<^verbatim>\<open>New\<close>. Whatever the janitor does between the return of
  \<^verbatim>\<open>create\<close> and the assignment of line 254, the new resource is not touched: the
  janitor expires tracked resources only, and tracks only what it constructs itself.
  So \<^verbatim>\<open>New\<close> keeps the invariant under every schedule.
\<close>

lemma keys_Nil: "keys [] = {}"
  by (simp add: keys_def)

lemma confined_refl: "confined p p"
  by (simp add: confined_def)

lemma confined_trans:
  assumes "confined p q" and "confined q r"
  shows "confined p r"
proof -
  from assms(1) obtain es1 where 1: "trace q = trace p @ es1"
    "keys (unlocked q) \<union> keys (locked q) \<union> set (expired (trace q))
      \<subseteq> keys (unlocked p) \<union> keys (locked p) \<union> set (expired (trace p)) \<union> set (created es1)"
    by (auto simp: confined_def)
  from assms(2) obtain es2 where 2: "trace r = trace q @ es2"
    "keys (unlocked r) \<union> keys (locked r) \<union> set (expired (trace r))
      \<subseteq> keys (unlocked q) \<union> keys (locked q) \<union> set (expired (trace q)) \<union> set (created es2)"
    by (auto simp: confined_def)
  have "trace r = trace p @ (es1 @ es2)" using 1(1) 2(1) by simp
  moreover have "keys (unlocked r) \<union> keys (locked r) \<union> set (expired (trace r))
      \<subseteq> keys (unlocked p) \<union> keys (locked p) \<union> set (expired (trace p)) \<union> set (created (es1 @ es2))"
    using 1(2) 2(2) by (auto simp: created_append)
  ultimately show ?thesis unfolding confined_def by blast
qed

lemma confined_same:
  "trace q = trace p \<Longrightarrow> unlocked q = unlocked p \<Longrightarrow> locked q = locked p \<Longrightarrow> confined p q"
  by (simp add: confined_def)

lemma confined_discard_unlocked:
  "confined p (call_expire k (p\<lparr>unlocked := AList.delete k (unlocked p)\<rparr>))" if "k \<in> keys (unlocked p)"
  using that by (auto simp: confined_def call_defs keys_delete expired_append)

lemma confined_discard_locked:
  "confined p (call_expire k (p\<lparr>locked := AList.delete k (locked p)\<rparr>))" if "k \<in> keys (locked p)"
  using that by (auto simp: confined_def call_defs keys_delete expired_append)

lemma confined_create:
  assumes "call_create p = ((r, ce), p1)"
  shows "confined p p1"
proof -
  from assms have "trace p1 = trace p @ [CreateCall r ce]" "unlocked p1 = unlocked p"
    "locked p1 = locked p"
    by (auto simp: call_defs split: prod.splits)
  then show ?thesis
    by (cases ce) (auto simp: confined_def expired_append)
qed

lemma confined_create_unlocked:
  assumes "call_create p = ((r, None), p1)" and "call_now rt p1 = (t, p2)"
  shows "confined p (p2\<lparr>unlocked := AList.update r t (unlocked p2)\<rparr>)"
proof -
  from assms have "trace p2 = trace p @ [CreateCall r None]" "unlocked p2 = unlocked p"
    "locked p2 = locked p"
    by (auto simp: call_defs split: prod.splits)
  then show ?thesis
    by (auto simp: confined_def expired_append keys_update)
qed

lemma confined_CleanUp_unlocked: "confined p (snd (CleanUp_unlocked now ks ex p))"
proof (induction ks arbitrary: p ex)
  case Nil
  show ?case by (simp add: confined_refl)
next
  case (Cons k ks)
  show ?case
  proof (cases "map_of (unlocked p) k")
    case None
    with Cons.IH [of p ex] show ?thesis by simp
  next
    case (Some t)
    then have kin: "k \<in> keys (unlocked p)"
      using map_of_None_keys [of "unlocked p" k] by auto
    show ?thesis
    proof (cases "now - t > idleTimeout p")
      case True
      from confined_trans [OF confined_discard_unlocked [OF kin] Cons.IH] Some True
      show ?thesis by simp
    next
      case False
      with Some Cons.IH [of p ex] show ?thesis by simp
    qed
  qed
qed

lemma confined_CleanUp_locked: "confined p (snd (CleanUp_locked now ks ex p))"
proof (induction ks arbitrary: p ex)
  case Nil
  show ?case by (simp add: confined_refl)
next
  case (Cons k ks)
  show ?case
  proof (cases "map_of (locked p) k")
    case None
    with Cons.IH [of p ex] show ?thesis by simp
  next
    case (Some t)
    then have kin: "k \<in> keys (locked p)"
      using map_of_None_keys [of "locked p" k] by auto
    show ?thesis
    proof (cases "now - t > borrowTimeout p")
      case True
      from confined_trans [OF confined_discard_locked [OF kin] Cons.IH] Some True
      show ?thesis by simp
    next
      case False
      with Some Cons.IH [of p ex] show ?thesis by simp
    qed
  qed
qed

lemma confined_keepMinIdle_loop: "confined p (snd (keepMinIdle_loop rt i p))"
proof (induction rt i p rule: keepMinIdle_loop.induct)
  case (1 rt i p)
  show ?case
  proof (cases "i < minIdle p")
    case False
    then show ?thesis by (simp add: confined_refl)
  next
    case lt: True
    obtain r ce p1 where c: "call_create p = ((r, ce), p1)"
      by (metis surj_pair)
    show ?thesis
    proof (cases ce)
      case (Some e)
      with c lt confined_create [of p r ce p1] show ?thesis by simp
    next
      case None
      obtain t p2 where n: "call_now rt p1 = (t, p2)"
        by (metis surj_pair)
      let ?p3 = "p2\<lparr>unlocked := AList.update r t (unlocked p2)\<rparr>"
      from c None have c': "call_create p = ((r, None), p1)" by simp
      from "1.IH" [OF lt c [symmetric] refl None n [symmetric]]
      have "confined ?p3 (snd (keepMinIdle_loop rt (i + 1) ?p3))" .
      from confined_trans [OF confined_create_unlocked [OF c' n] this] c None n lt
      show ?thesis by simp
    qed
  qed
qed

lemma confined_keepMinIdle: "confined p (snd (keepMinIdle rt p))"
  by (simp add: keepMinIdle_def Let_def confined_refl confined_keepMinIdle_loop
      del: keepMinIdle_loop.simps)

lemma confined_CleanUp: "confined p (snd (CleanUp rt p))"
proof (cases "closed p")
  case True
  then show ?thesis
    by (simp add: CleanUp_def Let_def confined_def Lock_def Unlock_def)
next
  case False
  let ?p = "Lock p"
  obtain now p1 where n: "call_now rt ?p = (now, p1)" by (metis surj_pair)
  obtain e1 p2 where c1: "CleanUp_unlocked now (range_keys rt p1 (unlocked p1)) False p1 = (e1, p2)"
    by (metis surj_pair)
  obtain e2 p3 where c2: "CleanUp_locked now (range_keys rt p2 (locked p2)) e1 p2 = (e2, p3)"
    by (metis surj_pair)
  obtain err p4 where km: "keepMinIdle rt p3 = (err, p4)" by (metis surj_pair)
  from n have "confined p p1"
    by (intro confined_same) (auto simp: call_defs Lock_def split: prod.splits)
  moreover from confined_CleanUp_unlocked [of p1 now "range_keys rt p1 (unlocked p1)" False] c1
  have "confined p1 p2" by simp
  moreover from confined_CleanUp_locked [of p2 now "range_keys rt p2 (locked p2)" e1] c2
  have "confined p2 p3" by simp
  moreover from confined_keepMinIdle [of p3 rt] km have "confined p3 p4" by simp
  ultimately have k4: "confined p p4" by (blast intro: confined_trans)
  have u: "confined p4 (Unlock p4)"
    by (rule confined_same) (simp_all add: Unlock_def)
  have b: "confined p4 (Unlock (call_Broadcast p4))"
    by (auto simp: confined_def Unlock_def call_defs expired_append)
  from confined_trans [OF k4 u] confined_trans [OF k4 b] n c1 c2 km False
  show ?thesis
    by (cases err) (simp_all add: CleanUp_def Let_def)
qed

lemma confined_janitor_tick: "confined p (janitor_tick rt p)"
proof -
  obtain err p1 where c: "CleanUp rt p = (err, p1)" by (metis surj_pair)
  with confined_CleanUp [of p rt] have k: "confined p p1" by simp
  have "confined p1 (p1\<lparr>world := w\<rparr>)" for w
    by (rule confined_same) simp_all
  from confined_trans [OF k this] k c show ?thesis
    by (simp add: janitor_tick_def split: option.splits)
qed

lemma confined_closing: "confined p (closing rt p)"
proof -
  let ?P = "Lock p"
  let ?ks1 = "range_keys rt ?P (locked ?P)"
  let ?p1 = "expire_all (locked ?P) ?ks1 ?P"
  let ?ks2 = "range_keys rt ?p1 (unlocked ?p1)"
  let ?p2 = "expire_all (unlocked ?p1) ?ks2 ?p1"
  let ?xs = "[k \<leftarrow> ?ks1. k \<in> keys (locked p)]"
  let ?ys = "[k \<leftarrow> ?ks2. k \<in> keys (unlocked p)]"
  have P: "trace ?P = trace p" "unlocked ?P = unlocked p" "locked ?P = locked p"
    by (simp_all add: Lock_def)
  have p1: "trace ?p1 = trace p @ map ExpireCall ?xs" "unlocked ?p1 = unlocked p"
    "locked ?p1 = locked p"
    using expire_all_spec [of "locked ?P" ?ks1 ?P] P by simp_all
  have p2: "trace ?p2 = trace p @ map ExpireCall ?xs @ map ExpireCall ?ys"
    using expire_all_spec [of "unlocked ?p1" ?ks2 ?p1] p1 by simp
  have cl: "closing rt p = Unlock (?p2\<lparr>locked := [], unlocked := [], closed := True\<rparr>)"
    by (simp add: closing_def Let_def)
  have tr: "trace (closing rt p) = trace p @ map ExpireCall (?xs @ ?ys)"
    using p2 by (simp add: cl Unlock_def)
  have mp: "unlocked (closing rt p) = []" "locked (closing rt p) = []"
    by (simp_all add: cl Unlock_def)
  have "set (expired (trace (closing rt p)))
      \<subseteq> keys (unlocked p) \<union> keys (locked p) \<union> set (expired (trace p))"
    by (auto simp: tr expired_append expired_map simp del: map_append)
  then have "keys (unlocked (closing rt p)) \<union> keys (locked (closing rt p))
        \<union> set (expired (trace (closing rt p)))
      \<subseteq> keys (unlocked p) \<union> keys (locked p) \<union> set (expired (trace p))
        \<union> set (created (map ExpireCall (?xs @ ?ys)))"
    unfolding mp by (auto simp: keys_Nil)
  with tr show ?thesis
    unfolding confined_def by blast
qed

lemma keeps_janitor_run:
  assumes "range_faithful rt"
  shows "keeps p (snd (janitor_run rt js p))"
proof (induction js arbitrary: p)
  case Nil
  show ?case by (simp add: keeps_refl)
next
  case (Cons a js)
  show ?case
    using keeps_trans [OF keeps_janitor_tick Cons [of "janitor_tick rt p"]]
      keeps_closing [OF assms, of p]
    by (cases a) simp_all
qed

lemma confined_janitor_run: "confined p (snd (janitor_run rt js p))"
proof (induction js arbitrary: p)
  case Nil
  show ?case by (simp add: confined_refl)
next
  case (Cons a js)
  show ?case
    using confined_trans [OF confined_janitor_tick Cons [of "janitor_tick rt p"]]
      confined_closing [of p rt]
    by (cases a) simp_all
qed

lemma keeps_yield:
  assumes "range_faithful rt"
  shows "keeps p (snd (yield rt sched p))"
proof (cases sched)
  case Nil
  then show ?thesis by (simp add: keeps_refl)
next
  case (Cons js sched')
  with keeps_janitor_run [OF assms, of p js] show ?thesis
    by (cases "janitor_run rt js p") simp
qed

lemma confined_yield: "confined p (snd (yield rt sched p))"
proof (cases sched)
  case Nil
  then show ?thesis by (simp add: confined_refl)
next
  case (Cons js sched')
  with confined_janitor_run [of p rt js] show ?thesis
    by (cases "janitor_run rt js p") simp
qed

lemma keeps_insert_created:
  assumes c: "call_create p = ((r, None), p1)" and k: "keeps p1 p2" and f: "confined p1 p2"
    and n: "call_now rt p2 = (t, p3)"
  shows "keeps p (p3\<lparr>unlocked := AList.update r t (unlocked p3)\<rparr>)"
proof -
  let ?q = "p3\<lparr>unlocked := AList.update r t (unlocked p3)\<rparr>"
  from c have p1: "trace p1 = trace p @ [CreateCall r None]" "unlocked p1 = unlocked p"
    "locked p1 = locked p"
    by (auto simp: call_defs split: prod.splits)
  from n have p3: "trace p3 = trace p2" "unlocked p3 = unlocked p2" "locked p3 = locked p2"
    by (auto simp: call_defs split: prod.splits)
  from f obtain es where es: "trace p2 = trace p1 @ es"
    and sub: "keys (unlocked p2) \<union> keys (locked p2) \<union> set (expired (trace p2))
      \<subseteq> keys (unlocked p1) \<union> keys (locked p1) \<union> set (expired (trace p1)) \<union> set (created es)"
    by (auto simp: confined_def)
  have tq: "trace ?q = trace p @ (CreateCall r None # es)"
    using p1 p3 es by simp
  have "pool_inv ?q" if pi: "pool_inv p" and d: "distinct (created (trace ?q))"
  proof -
    from d have dn: "r \<notin> set (created (trace p))" "r \<notin> set (created es)"
      and d2: "distinct (created (trace p2))" and d1: "distinct (created (trace p1))"
      by (auto simp: tq es p1 created_append)
    from pi have i1: "pool_inv p1"
      using p1 by (auto simp: pool_inv_def created_append expired_append lifecycle_append)
    with k d2 have i2: "pool_inv p2" by (simp add: keeps_def)
    from pi have "keys (unlocked p) \<union> keys (locked p) \<union> set (expired (trace p))
        \<subseteq> set (created (trace p))"
      by (auto simp: pool_inv_def)
    with dn sub p1 have un: "r \<notin> keys (unlocked p2)" "r \<notin> keys (locked p2)"
      "r \<notin> set (expired (trace p2))"
      by (auto simp: expired_append)
    have rc: "r \<in> set (created (trace p2))"
      by (simp add: es p1 created_append)
    from i2 un rc show ?thesis
      by (auto simp: pool_inv_def p3 keys_update AList.distinct_update)
  qed
  with tq show ?thesis by (auto simp: keeps_def)
qed

lemma keeps_New_loop: "range_faithful rt \<Longrightarrow> keeps p (snd (New_loop rt sched i p))"
proof (induction rt sched i p rule: New_loop.induct)
  case (1 rt sched i p)
  note rf = "1.prems"
  show ?case
  proof (cases "i < minIdle p")
    case False
    then show ?thesis by (simp add: keeps_refl)
  next
    case lt: True
    obtain r ce p1 where c: "call_create p = ((r, ce), p1)"
      by (metis surj_pair)
    show ?thesis
    proof (cases ce)
      case (Some e)
      with c lt keeps_create_failed [of p r e p1] show ?thesis by simp
    next
      case None
      obtain sched1 p2 where y1: "yield rt sched p1 = (sched1, p2)" by (metis surj_pair)
      obtain t p3 where n: "call_now rt p2 = (t, p3)" by (metis surj_pair)
      let ?p3 = "p3\<lparr>unlocked := AList.update r t (unlocked p3)\<rparr>"
      obtain sched2 p4 where y2: "yield rt sched1 ?p3 = (sched2, p4)" by (metis surj_pair)
      from c None have c': "call_create p = ((r, None), p1)" by simp
      from keeps_yield [OF rf, of p1 sched] y1 have k12: "keeps p1 p2" by simp
      from confined_yield [of p1 rt sched] y1 have f12: "confined p1 p2" by simp
      from keeps_insert_created [OF c' k12 f12 n] have k3: "keeps p ?p3" .
      from keeps_yield [OF rf, of ?p3 sched1] y2 have k34: "keeps ?p3 p4" by simp
      from "1.IH" [OF lt c [symmetric] refl None y1 [symmetric] n [symmetric] y2 [symmetric] rf]
      have "keeps p4 (snd (New_loop rt sched2 (i + 1) p4))" .
      from keeps_trans [OF keeps_trans [OF k3 k34] this] c None y1 n y2 lt
      show ?thesis by simp
    qed
  qed
qed

lemma keeps_New_keepMinIdle:
  assumes "range_faithful rt"
  shows "keeps p (snd (New_keepMinIdle rt sched p))"
proof -
  obtain sched1 p1 where y: "yield rt sched p = (sched1, p1)" by (metis surj_pair)
  from keeps_yield [OF assms, of p sched] y have k: "keeps p p1" by simp
  from keeps_trans [OF k keeps_New_loop [OF assms]] k y show ?thesis
    by (simp add: New_keepMinIdle_def Let_def del: New_loop.simps)
qed

lemma pool_inv_start: "pool_inv (fold apply_option opts (new_pool cr ex w))"
  using options_keep [of opts "new_pool cr ex w"]
  by (simp add: pool_inv_def new_pool_def keys_def)

lemma lifecycle_after:
  "lifecycle_ok D es \<Longrightarrow> r \<in> set D \<Longrightarrow>
   ExpireCall r \<notin> set es \<and> ValidateCall r ok err \<notin> set es"
  by (induction D es rule: lifecycle_ok.induct) auto

lemma lifecycle_distinct: "lifecycle_ok D es \<Longrightarrow> distinct (expired es)"
proof (induction D es rule: lifecycle_ok.induct)
  case (2 D r es)
  then have "lifecycle_ok (r # D) es" by simp
  from lifecycle_after [OF this, of r] 2 show ?case by (simp add: set_expired)
qed auto

text \<open>
  C4 (as amended). For every pool made by \<^verbatim>\<open>New\<close>, whatever critical sections the
  janitor ran before \<^verbatim>\<open>New\<close> returned, and every run of \<^verbatim>\<open>Borrow\<close>, \<^verbatim>\<open>Return\<close>, \<^verbatim>\<open>CleanUp\<close>, janitor
  ticks and the closing of the pool, in which every \<^verbatim>\<open>Return\<close> is given a resource
  that is borrowed at that moment and \<^verbatim>\<open>create\<close> returned a different pointer at each
  successful call: no resource is passed to \<^verbatim>\<open>expire\<close> twice; no resource is
  validated (and so none is lent from the idle resources) after it was passed to
  \<^verbatim>\<open>expire\<close>; and no resource that was passed to \<^verbatim>\<open>expire\<close> is a key of
  \<^verbatim>\<open>p.unlocked\<close> or \<^verbatim>\<open>p.locked\<close>. As this holds for every run, it holds at every moment
  of a run.
\<close>

theorem destroyed_at_most_once:
  assumes rf: "range_faithful rt"
    and nw: "New rt sched cr ex opts w = Inr (e, p)"
    and rb: "returns_borrowed rt acts p"
    and fresh: "distinct (created (trace (run rt acts p)))"
  shows "lifecycle_ok [] (trace (run rt acts p))
    \<and> distinct (expired (trace (run rt acts p)))
    \<and> (keys (unlocked (run rt acts p)) \<union> keys (locked (run rt acts p)))
        \<inter> set (expired (trace (run rt acts p))) = {}
    \<and> (\<forall>xs ys r ok err.
          trace (run rt acts p) = xs @ ExpireCall r # ys \<longrightarrow>
          ExpireCall r \<notin> set xs \<and> ExpireCall r \<notin> set ys \<and> ValidateCall r ok err \<notin> set ys)"
proof -
  let ?cfg = "fold apply_option opts (new_pool cr ex w)"
  let ?q = "run rt acts p"
  from nw have "p = snd (New_keepMinIdle rt sched ?cfg)"
    by (auto simp: New_def Let_def split: if_splits)
  then have "keeps ?cfg p" by (simp add: keeps_New_keepMinIdle [OF rf])
  from keeps_trans [OF this keeps_run [OF rf rb]] have "keeps ?cfg ?q" .
  with pool_inv_start [of opts cr ex w] fresh have inv: "pool_inv ?q"
    by (simp add: keeps_def)
  then have lc: "lifecycle_ok [] (trace ?q)"
    and te: "(keys (unlocked ?q) \<union> keys (locked ?q)) \<inter> set (expired (trace ?q)) = {}"
    by (simp_all add: pool_inv_def)
  have "ExpireCall r \<notin> set xs \<and> ExpireCall r \<notin> set ys \<and> ValidateCall r ok err \<notin> set ys"
    if eq: "trace ?q = xs @ ExpireCall r # ys" for xs ys r ok err
  proof -
    from lc eq have l1: "r \<notin> set (expired xs)" and l2: "lifecycle_ok (r # expired xs) ys"
      by (simp_all add: lifecycle_append)
    from l1 have "ExpireCall r \<notin> set xs" by (simp add: set_expired)
    with lifecycle_after [OF l2, of r ok err] show ?thesis by simp
  qed
  with lc te lifecycle_distinct [OF lc] show ?thesis by blast
qed

lemma range_faithful_test_rt: "range_faithful test_rt"
  by (simp add: range_faithful_def test_rt_def)

theorem destroyed_at_most_once_witness:
  "range_faithful test_rt
   \<and> New test_rt [] test_create test_expire [MinIdle 1, IdleTimeout 0] 0
       = Inr (None, snd (projr (New test_rt [] test_create test_expire [MinIdle 1, IdleTimeout 0] 0)))
   \<and> returns_borrowed test_rt [DoBorrow, DoReturn 1, DoCleanUp, DoBorrow, DoClose]
       (snd (projr (New test_rt [] test_create test_expire [MinIdle 1, IdleTimeout 0] 0)))
   \<and> distinct (created (trace (run test_rt [DoBorrow, DoReturn 1, DoCleanUp, DoBorrow, DoClose]
       (snd (projr (New test_rt [] test_create test_expire [MinIdle 1, IdleTimeout 0] 0))))))
   \<and> trace (run test_rt [DoBorrow, DoReturn 1, DoCleanUp, DoBorrow, DoClose]
       (snd (projr (New test_rt [] test_create test_expire [MinIdle 1, IdleTimeout 0] 0))))
      = [CreateCall 1 None, ValidateCall 1 True None, BroadcastCall, ExpireCall 1,
         CreateCall 6 None, BroadcastCall, ValidateCall 6 True None, ExpireCall 6]
   \<and> lifecycle_ok [] (trace (run test_rt [DoBorrow, DoReturn 1, DoCleanUp, DoBorrow, DoClose]
       (snd (projr (New test_rt [] test_create test_expire [MinIdle 1, IdleTimeout 0] 0)))))"
  using destroyed_at_most_once [where rt = test_rt and sched = "[]" and cr = test_create
      and ex = test_expire and opts = "[MinIdle 1, IdleTimeout 0]" and w = 0 and e = None
      and p = "snd (projr (New test_rt [] test_create test_expire [MinIdle 1, IdleTimeout 0] 0))"
      and acts = "[DoBorrow, DoReturn 1, DoCleanUp, DoBorrow, DoClose]"]
    range_faithful_test_rt
  by (simp add: model_defs test_defs keys_def)

text \<open>
  C4 as stated fails. A pool of size 1 with timeouts of 0: the resource 1 is borrowed,
  \<^verbatim>\<open>CleanUp\<close> reclaims and expires it, and its borrower returns it. It is idle again,
  the next \<^verbatim>\<open>Borrow\<close> validates it and lends it, and after its return the next
  \<^verbatim>\<open>CleanUp\<close> passes it to \<^verbatim>\<open>expire\<close> a second time.
\<close>

theorem destroyed_resource_reused:
  "trace (run test_rt [DoBorrow, DoCleanUp, DoReturn 1, DoBorrow, DoReturn 1, DoCleanUp]
       (snd (projr (New test_rt [] test_create test_expire [Size 1, BorrowTimeout 0, IdleTimeout 0] 0))))
     = [CreateCall 1 None, ExpireCall 1, BroadcastCall, BroadcastCall,
        ValidateCall 1 True None, BroadcastCall, ExpireCall 1, BroadcastCall]
   \<and> keys (unlocked (run test_rt [DoBorrow, DoCleanUp, DoReturn 1]
       (snd (projr (New test_rt [] test_create test_expire [Size 1, BorrowTimeout 0, IdleTimeout 0] 0)))))
     = {1}
   \<and> fst (Borrow_enter test_rt (run test_rt [DoBorrow, DoCleanUp, DoReturn 1]
       (snd (projr (New test_rt [] test_create test_expire [Size 1, BorrowTimeout 0, IdleTimeout 0] 0)))))
     = Done 1 None
   \<and> count_list (expired (trace
       (run test_rt [DoBorrow, DoCleanUp, DoReturn 1, DoBorrow, DoReturn 1, DoCleanUp]
         (snd (projr (New test_rt [] test_create test_expire [Size 1, BorrowTimeout 0, IdleTimeout 0] 0))))))
       1 = 2"
  by (simp add: model_defs test_defs keys_def)

subsection \<open>The bound on the resources, without the top-up\<close>

text \<open>
  Beside the top-up, the operations keep the pool within its size: the scan and
  \<^verbatim>\<open>CleanUp\<close> only take resources away, \<^verbatim>\<open>Borrow\<close> constructs below the size only,
  and \<^verbatim>\<open>Return\<close> moves a borrowed resource. So with an idle minimum of 0, and every
  \<^verbatim>\<open>Return\<close> given a resource that is borrowed at that moment, every run stays within
  the size, whatever critical sections the janitor ran before \<^verbatim>\<open>New\<close> returned. (A \<^verbatim>\<open>Return\<close> of a
  resource that \<^verbatim>\<open>CleanUp\<close> has reclaimed adds a resource to the pool, and can exceed
  the size as well.)
\<close>

lemma length_delete_less: "map_of al k = Some t \<Longrightarrow> length (AList.delete k al) < length al"
proof (induction al)
  case Nil
  then show ?case by simp
next
  case (Cons a al)
  then show ?case
    using AList.length_delete_le [of k al] by (cases a) (auto simp: le_imp_less_Suc)
qed

lemma length_update_le: "length (AList.update k v al) \<le> Suc (length al)"
  by (induction al) auto

lemma shrinks_refl: "shrinks p p"
  by (simp add: shrinks_def)

lemma shrinks_trans: "shrinks p q \<Longrightarrow> shrinks q r \<Longrightarrow> shrinks p r"
  by (auto simp: shrinks_def)

lemma shrinks_Borrow_scan: "shrinks p (snd (Borrow_scan rt ks p))"
proof (induction ks arbitrary: p)
  case Nil
  show ?case by (simp add: shrinks_refl)
next
  case (Cons k ks)
  show ?case
  proof (cases "map_of (unlocked p) k")
    case None
    with Cons.IH [of p] show ?thesis by simp
  next
    case (Some t0)
    obtain ok ve p1 where v: "call_validate k p = ((ok, ve), p1)"
      by (metis surj_pair)
    then have p1: "unlocked p1 = unlocked p" "locked p1 = locked p" "size' p1 = size' p"
      "minIdle p1 = minIdle p" "closed p1 = closed p"
      by (auto simp: call_defs split: prod.splits)
    note dl = length_delete_less [OF Some]
    show ?thesis
    proof (cases ve)
      case (Some e)
      with v \<open>map_of (unlocked p) k = Some t0\<close> p1 show ?thesis
        by (simp add: shrinks_def objectCount_def)
    next
      case None
      show ?thesis
      proof (cases ok)
        case True
        obtain t p2 where n: "call_now rt (p1\<lparr>unlocked := AList.delete k (unlocked p1)\<rparr>) = (t, p2)"
          by (metis surj_pair)
        then have "unlocked p2 = AList.delete k (unlocked p)" "locked p2 = locked p"
          "size' p2 = size' p" "minIdle p2 = minIdle p" "closed p2 = closed p"
          using p1 by (auto simp: call_defs split: prod.splits)
        with v None True n \<open>map_of (unlocked p) k = Some t0\<close> dl
          length_update_le [of k t "locked p"]
        show ?thesis by (simp add: shrinks_def objectCount_def)
      next
        case False
        let ?p' = "call_expire k (p1\<lparr>unlocked := AList.delete k (unlocked p1)\<rparr>)"
        have "shrinks p ?p'"
          using p1 dl by (simp add: shrinks_def objectCount_def call_defs)
        from shrinks_trans [OF this Cons.IH [of ?p']] v None False
          \<open>map_of (unlocked p) k = Some t0\<close>
        show ?thesis by simp
      qed
    qed
  qed
qed

lemma shrinks_CleanUp_unlocked: "shrinks p (snd (CleanUp_unlocked now ks ex p))"
proof (induction ks arbitrary: p ex)
  case Nil
  show ?case by (simp add: shrinks_refl)
next
  case (Cons k ks)
  show ?case
  proof (cases "map_of (unlocked p) k")
    case None
    with Cons.IH [of p ex] show ?thesis by simp
  next
    case (Some t)
    let ?p' = "call_expire k (p\<lparr>unlocked := AList.delete k (unlocked p)\<rparr>)"
    have "shrinks p ?p'"
      using length_delete_less [OF Some] by (simp add: shrinks_def objectCount_def call_defs)
    from shrinks_trans [OF this Cons.IH [of ?p' True]] Some Cons.IH [of p ex]
    show ?thesis by simp
  qed
qed

lemma shrinks_CleanUp_locked: "shrinks p (snd (CleanUp_locked now ks ex p))"
proof (induction ks arbitrary: p ex)
  case Nil
  show ?case by (simp add: shrinks_refl)
next
  case (Cons k ks)
  show ?case
  proof (cases "map_of (locked p) k")
    case None
    with Cons.IH [of p ex] show ?thesis by simp
  next
    case (Some t)
    let ?p' = "call_expire k (p\<lparr>locked := AList.delete k (locked p)\<rparr>)"
    have "shrinks p ?p'"
      using length_delete_less [OF Some] by (simp add: shrinks_def objectCount_def call_defs)
    from shrinks_trans [OF this Cons.IH [of ?p' True]] Some Cons.IH [of p ex]
    show ?thesis by simp
  qed
qed

lemma shrinks_Lock: "shrinks p (Lock p)"
  by (simp add: shrinks_def objectCount_def Lock_def)

lemma shrinks_Unlock: "shrinks p (Unlock p)"
  by (simp add: shrinks_def objectCount_def Unlock_def)

lemma shrinks_call_now: "shrinks p (snd (call_now rt p))"
  by (auto simp: shrinks_def objectCount_def call_defs split: prod.splits)

lemma shrinks_call_Broadcast: "shrinks p (call_Broadcast p)"
  by (simp add: shrinks_def objectCount_def call_defs)

lemma shrinks_keepMinIdle: "minIdle p \<le> 0 \<Longrightarrow> keepMinIdle rt p = (None, p)"
  by (simp add: keepMinIdle_def Let_def del: keepMinIdle_loop.simps)

lemma capacity_shrinks: "shrinks p q \<Longrightarrow> capacity_ok p \<Longrightarrow> capacity_ok q"
  by (simp add: shrinks_def capacity_ok_def)

lemma steady_shrinks: "shrinks p q \<Longrightarrow> steady p q"
  by (simp add: shrinks_def steady_def capacity_ok_def)

lemma steady_trans: "steady p q \<Longrightarrow> steady q r \<Longrightarrow> steady p r"
  by (auto simp: steady_def)

lemma steady_Borrow_capacity:
  assumes "\<not> closed p"
  shows "steady p (snd (Borrow_capacity rt p))"
proof (cases "objectCount p \<ge> size' p")
  case True
  with assms show ?thesis
    by (simp add: Borrow_capacity_def steady_def capacity_ok_def objectCount_def Unlock_def)
next
  case False
  obtain r ce p1 where c: "call_create p = ((r, ce), p1)"
    by (metis surj_pair)
  then have p1: "unlocked p1 = unlocked p" "locked p1 = locked p" "size' p1 = size' p"
    "minIdle p1 = minIdle p"
    by (auto simp: call_defs split: prod.splits)
  show ?thesis
  proof (cases ce)
    case (Some e)
    with c False p1 show ?thesis
      by (simp add: Borrow_capacity_def steady_def capacity_ok_def objectCount_def Unlock_def)
  next
    case None
    obtain t p2 where n: "call_now rt p1 = (t, p2)"
      by (metis surj_pair)
    then have "unlocked p2 = unlocked p" "locked p2 = locked p" "size' p2 = size' p"
      "minIdle p2 = minIdle p"
      using p1 by (auto simp: call_defs split: prod.splits)
    with c None n False length_update_le [of r t "locked p"] show ?thesis
      by (simp add: Borrow_capacity_def steady_def capacity_ok_def objectCount_def Unlock_def)
  qed
qed

lemma steady_Borrow_enter: "steady p (snd (Borrow_enter rt p))"
proof (cases "closed p")
  case True
  then show ?thesis
    by (simp add: Borrow_enter_def Let_def steady_def capacity_ok_def objectCount_def
        Lock_def Unlock_def)
next
  case False
  let ?p = "Lock p"
  obtain res p1 where sc: "Borrow_scan rt (range_keys rt ?p (unlocked ?p)) ?p = (res, p1)"
    by (metis surj_pair)
  from shrinks_Borrow_scan [of ?p rt "range_keys rt ?p (unlocked ?p)"] sc
  have s1: "shrinks p p1" using shrinks_trans [OF shrinks_Lock, of p p1] by simp
  then have nc: "\<not> closed p1" using False by (simp add: shrinks_def)
  show ?thesis
  proof (cases res)
    case None
    from steady_trans [OF steady_shrinks [OF s1] steady_Borrow_capacity [OF nc, of rt]] sc None False
    show ?thesis by (simp add: Borrow_enter_def Let_def)
  next
    case (Some a)
    from steady_shrinks [OF shrinks_trans [OF s1 shrinks_Unlock]] sc Some False
    show ?thesis by (simp add: Borrow_enter_def Let_def split: prod.splits)
  qed
qed

lemma steady_Borrow_wake: "steady p (snd (Borrow_wake rt err p))"
proof (cases "err = None \<and> \<not> closed p")
  case True
  then have "\<not> closed (Lock p)" by simp
  from steady_trans [OF steady_shrinks [OF shrinks_Lock] steady_Borrow_capacity [OF this, of rt]] True
  show ?thesis by (simp add: Borrow_wake_def Let_def)
next
  case False
  with steady_shrinks [OF shrinks_trans [OF shrinks_Lock shrinks_Unlock], of p] show ?thesis
    by (auto simp: Borrow_wake_def Let_def split: option.splits)
qed

lemma steady_Return:
  assumes "r \<in> keys (locked p)"
  shows "steady p (Return rt r p)"
proof (cases "closed p \<or> r = nil")
  case True
  with steady_shrinks [OF shrinks_trans [OF shrinks_Lock shrinks_Unlock], of p] show ?thesis
    by (auto simp: Return_def Let_def)
next
  case False
  let ?p = "Lock p"
  obtain t p1 where n: "call_now rt (?p\<lparr>locked := AList.delete r (locked ?p)\<rparr>) = (t, p1)"
    by (metis surj_pair)
  then have p1: "locked p1 = AList.delete r (locked p)" "unlocked p1 = unlocked p"
    "size' p1 = size' p" "minIdle p1 = minIdle p"
    by (auto simp: call_defs Lock_def split: prod.splits)
  from assms obtain t0 where "map_of (locked p) r = Some t0"
    using map_of_None_keys [of "locked p" r] by auto
  from length_delete_less [OF this] length_update_le [of r t "unlocked p"] p1 n False
  show ?thesis
    by (simp add: Return_def Let_def steady_def capacity_ok_def objectCount_def Unlock_def
        call_defs)
qed

lemma steady_CleanUp:
  assumes "minIdle p \<le> 0"
  shows "steady p (snd (CleanUp rt p))"
proof (cases "closed p")
  case True
  with steady_shrinks [OF shrinks_trans [OF shrinks_Lock shrinks_Unlock], of p] show ?thesis
    by (simp add: CleanUp_def Let_def)
next
  case False
  let ?p = "Lock p"
  obtain now p1 where n: "call_now rt ?p = (now, p1)" by (metis surj_pair)
  obtain e1 p2 where c1: "CleanUp_unlocked now (range_keys rt p1 (unlocked p1)) False p1 = (e1, p2)"
    by (metis surj_pair)
  obtain e2 p3 where c2: "CleanUp_locked now (range_keys rt p2 (locked p2)) e1 p2 = (e2, p3)"
    by (metis surj_pair)
  from shrinks_call_now [of ?p rt] n have "shrinks p p1"
    using shrinks_trans [OF shrinks_Lock, of p p1] by simp
  moreover from shrinks_CleanUp_unlocked [of p1 now "range_keys rt p1 (unlocked p1)" False] c1
  have "shrinks p1 p2" by simp
  moreover from shrinks_CleanUp_locked [of p2 now "range_keys rt p2 (locked p2)" e1] c2
  have "shrinks p2 p3" by simp
  ultimately have s3: "shrinks p p3" by (blast intro: shrinks_trans)
  with assms have "minIdle p3 \<le> 0" by (simp add: shrinks_def)
  then have km: "keepMinIdle rt p3 = (None, p3)" by (rule shrinks_keepMinIdle)
  from steady_shrinks [OF shrinks_trans [OF s3 shrinks_Unlock]]
    steady_shrinks [OF shrinks_trans [OF shrinks_trans [OF s3 shrinks_call_Broadcast] shrinks_Unlock]]
    n c1 c2 km False
  show ?thesis by (simp add: CleanUp_def Let_def)
qed

lemma steady_janitor_tick:
  assumes "minIdle p \<le> 0"
  shows "steady p (janitor_tick rt p)"
proof -
  obtain err p1 where c: "CleanUp rt p = (err, p1)" by (metis surj_pair)
  with steady_CleanUp [OF assms, of rt] have "steady p p1" by simp
  then have "steady p (p1\<lparr>world := w\<rparr>)" for w
    by (auto simp: steady_def capacity_ok_def objectCount_def)
  with \<open>steady p p1\<close> c show ?thesis
    by (simp add: janitor_tick_def split: option.splits)
qed

lemma expire_all_config:
  "size' (expire_all m ks p) = size' p \<and> minIdle (expire_all m ks p) = minIdle p"
proof (induction ks arbitrary: p)
  case Nil
  show ?case by simp
next
  case (Cons k ks)
  show ?case using Cons.IH [of p] Cons.IH [of "call_expire k p"]
    by (simp add: call_defs split: option.splits)
qed

lemma steady_closing: "steady p (closing rt p)"
  by (simp add: closing_def Let_def steady_def capacity_ok_def objectCount_def Unlock_def
      expire_all_config Lock_def)

lemma steady_step:
  assumes "minIdle p \<le> 0" and "\<And>r. a = DoReturn r \<Longrightarrow> r \<in> keys (locked p)"
  shows "steady p (step rt a p)"
proof (cases a)
  case DoWait
  then show ?thesis by (simp add: steady_def capacity_ok_def objectCount_def)
next
  case (DoReturn r)
  with assms(2) steady_Return show ?thesis by simp
qed (simp_all add: steady_Borrow_enter steady_Borrow_wake steady_CleanUp steady_janitor_tick
    steady_closing assms(1))

lemma steady_run:
  "minIdle p \<le> 0 \<Longrightarrow> returns_borrowed rt acts p \<Longrightarrow> steady p (run rt acts p)"
proof (induction acts arbitrary: p)
  case Nil
  show ?case by (simp add: run_def steady_def)
next
  case (Cons a acts)
  from Cons.prems have rb: "returns_borrowed rt acts (step rt a p)"
    and ok: "\<And>r. a = DoReturn r \<Longrightarrow> r \<in> keys (locked p)"
    by (cases a; simp)+
  from steady_step [OF Cons.prems(1) ok] have s1: "steady p (step rt a p)" .
  with Cons.prems(1) have "minIdle (step rt a p) \<le> 0" by (simp add: steady_def)
  from steady_trans [OF s1 Cons.IH [OF this rb]] show ?case by (simp add: run_def)
qed

lemma steady_refl: "steady p p"
  by (simp add: steady_def)

lemma steady_janitor_run:
  "minIdle p \<le> 0 \<Longrightarrow> steady p (snd (janitor_run rt js p))"
proof (induction js arbitrary: p)
  case Nil
  show ?case by (simp add: steady_refl)
next
  case (Cons a js)
  from steady_janitor_tick [OF Cons.prems, of rt] have s1: "steady p (janitor_tick rt p)" .
  with Cons.prems have "minIdle (janitor_tick rt p) \<le> 0" by (simp add: steady_def)
  from steady_trans [OF s1 Cons.IH [OF this]] steady_closing [of p rt] show ?case
    by (cases a) simp_all
qed

lemma steady_yield: "minIdle p \<le> 0 \<Longrightarrow> steady p (snd (yield rt sched p))"
proof (cases sched)
  case Nil
  then show ?thesis by (simp add: steady_refl)
next
  case (Cons js sched')
  assume "minIdle p \<le> 0"
  from steady_janitor_run [OF this, of rt js] Cons show ?thesis
    by (cases "janitor_run rt js p") simp
qed

lemma capacity_without_top_up:
  assumes "minIdle (fold apply_option opts (new_pool cr ex w)) \<le> 0"
    and "New rt sched cr ex opts w = Inr (err, p)"
    and "returns_borrowed rt acts p"
  shows "objectCount (run rt acts p) \<le> size' (run rt acts p)"
proof -
  let ?cfg = "fold apply_option opts (new_pool cr ex w)"
  obtain sched1 p1 where y: "yield rt sched ?cfg = (sched1, p1)" by (metis surj_pair)
  from steady_yield [OF assms(1), of rt sched] y have s1: "steady ?cfg p1" by simp
  with assms(1) have m1: "minIdle p1 \<le> 0" by (simp add: steady_def)
  from assms(2) have "(err, p) = New_keepMinIdle rt sched ?cfg"
    by (auto simp: New_def Let_def split: if_splits)
  with y m1 have pe: "p = p1"
    by (simp add: New_keepMinIdle_def Let_def del: New_loop.simps)
  have "capacity_ok ?cfg"
    using options_keep [of opts "new_pool cr ex w"]
    by (simp add: capacity_ok_def objectCount_def new_pool_def)
  with s1 have "capacity_ok p1" by (simp add: steady_def)
  with steady_run [OF m1, of rt acts] assms(3) pe show ?thesis
    by (simp add: steady_def capacity_ok_def)
qed

subsection \<open>The calls of CleanUp, and the mutex around the wait\<close>

text \<open>
  The calls of a \<^verbatim>\<open>CleanUp\<close> on a pool that is not closed: the resources \<open>xs\<close> are
  expired, the resources \<open>rs\<close> are constructed, and then either \<^verbatim>\<open>create\<close> fails and
  \<^verbatim>\<open>CleanUp\<close> returns, never with a broadcast, or \<^verbatim>\<open>CleanUp\<close> broadcasts if something
  was expired. And a critical section of \<^verbatim>\<open>Borrow\<close> always leaves the mutex free, in
  particular when the borrower goes on to wait on the gate.
\<close>

lemma CleanUp_unlocked_spec:
  "CleanUp_unlocked now ks ex p = (ex', q) \<Longrightarrow>
   \<exists>xs. trace q = trace p @ map ExpireCall xs \<and> (ex' = (ex \<or> xs \<noteq> []))
     \<and> cond q = cond p \<and> closed q = closed p \<and> mutex q = mutex p"
proof (induction ks arbitrary: p ex)
  case Nil
  then show ?case by (intro exI [of _ "[]"]) simp
next
  case (Cons k ks)
  show ?case
  proof (cases "map_of (unlocked p) k")
    case None
    with Cons.prems Cons.IH [of ex p] show ?thesis by simp
  next
    case (Some t)
    show ?thesis
    proof (cases "now - t > idleTimeout p")
      case False
      with Some Cons.prems Cons.IH [of ex p] show ?thesis by simp
    next
      case True
      let ?p' = "call_expire k (p\<lparr>unlocked := AList.delete k (unlocked p)\<rparr>)"
      from Some True Cons.prems have "CleanUp_unlocked now ks True ?p' = (ex', q)" by simp
      from Cons.IH [OF this] obtain xs where
        "trace q = trace ?p' @ map ExpireCall xs" "ex' = (True \<or> xs \<noteq> [])"
        "cond q = cond ?p'" "closed q = closed ?p'" "mutex q = mutex ?p'"
        by blast
      then show ?thesis
        by (intro exI [of _ "k # xs"]) (simp add: call_defs)
    qed
  qed
qed

lemma CleanUp_locked_spec:
  "CleanUp_locked now ks ex p = (ex', q) \<Longrightarrow>
   \<exists>xs. trace q = trace p @ map ExpireCall xs \<and> (ex' = (ex \<or> xs \<noteq> []))
     \<and> cond q = cond p \<and> closed q = closed p \<and> mutex q = mutex p"
proof (induction ks arbitrary: p ex)
  case Nil
  then show ?case by (intro exI [of _ "[]"]) simp
next
  case (Cons k ks)
  show ?case
  proof (cases "map_of (locked p) k")
    case None
    with Cons.prems Cons.IH [of ex p] show ?thesis by simp
  next
    case (Some t)
    show ?thesis
    proof (cases "now - t > borrowTimeout p")
      case False
      with Some Cons.prems Cons.IH [of ex p] show ?thesis by simp
    next
      case True
      let ?p' = "call_expire k (p\<lparr>locked := AList.delete k (locked p)\<rparr>)"
      from Some True Cons.prems have "CleanUp_locked now ks True ?p' = (ex', q)" by simp
      from Cons.IH [OF this] obtain xs where
        "trace q = trace ?p' @ map ExpireCall xs" "ex' = (True \<or> xs \<noteq> [])"
        "cond q = cond ?p'" "closed q = closed ?p'" "mutex q = mutex ?p'"
        by blast
      then show ?thesis
        by (intro exI [of _ "k # xs"]) (simp add: call_defs)
    qed
  qed
qed

lemma keepMinIdle_spec:
  "keepMinIdle rt p = (err, q) \<Longrightarrow>
   \<exists>rs fl. trace q = trace p @ map (\<lambda>r. CreateCall r None) rs @ fl
     \<and> (case err of None \<Rightarrow> fl = [] | Some e \<Rightarrow> \<exists>r e'. fl = [CreateCall r (Some e')])
     \<and> cond q = cond p"
proof (cases "int (length (unlocked p)) \<ge> minIdle p \<or> objectCount p \<ge> size' p")
  case True
  assume "keepMinIdle rt p = (err, q)"
  with True have "err = None" "q = p"
    by (simp_all add: keepMinIdle_def Let_def del: keepMinIdle_loop.simps)
  then show ?thesis by (intro exI [of _ "[]"]) simp
next
  case False
  assume "keepMinIdle rt p = (err, q)"
  with False have "keepMinIdle_loop rt (int (length (unlocked p))) p = (err, q)"
    by (simp add: keepMinIdle_def Let_def del: keepMinIdle_loop.simps)
  from keepMinIdle_loop_spec [OF this] obtain rs fl where
    "trace q = trace p @ map (\<lambda>r. CreateCall r None) rs @ fl"
    "case err of None \<Rightarrow> fl = [] \<and> int (length rs) = max 0 (minIdle p - int (length (unlocked p)))
         | Some e \<Rightarrow> \<exists>r e' w'. fl = [CreateCall r (Some e')] \<and> e = Wrapped ''on keeping the idle minimum'' e'
              \<and> fst (create p w') = (r, Some e') \<and> int (length rs) < minIdle p - int (length (unlocked p))"
    "cond q = cond p"
    by blast
  then show ?thesis
    by (intro exI [of _ rs] exI [of _ fl]) (auto split: option.splits)
qed

lemma CleanUp_spec:
  assumes nc: "\<not> closed p" and cu: "CleanUp rt p = (err, q)"
  shows "\<exists>xs rs fl. new_events p q = map ExpireCall xs @ map (\<lambda>r. CreateCall r None) rs @ fl
     \<and> (case err of
           None \<Rightarrow> fl = (if xs \<noteq> [] then [BroadcastCall] else []) \<and> (xs = [] \<longrightarrow> cond q = cond p)
         | Some e \<Rightarrow> (\<exists>r e'. fl = [CreateCall r (Some e')]) \<and> cond q = cond p)"
proof -
  let ?p = "Lock p"
  obtain now p1 where n: "call_now rt ?p = (now, p1)" by (metis surj_pair)
  obtain e1 p2 where c1: "CleanUp_unlocked now (range_keys rt p1 (unlocked p1)) False p1 = (e1, p2)"
    by (metis surj_pair)
  obtain e2 p3 where c2: "CleanUp_locked now (range_keys rt p2 (locked p2)) e1 p2 = (e2, p3)"
    by (metis surj_pair)
  obtain er p4 where km: "keepMinIdle rt p3 = (er, p4)" by (metis surj_pair)
  from n have p1: "trace p1 = trace p" "cond p1 = cond p"
    by (auto simp: call_defs Lock_def split: prod.splits)
  from CleanUp_unlocked_spec [OF c1] obtain xs where
    xs: "trace p2 = trace p1 @ map ExpireCall xs" "e1 = (xs \<noteq> [])" "cond p2 = cond p1"
    by auto
  from CleanUp_locked_spec [OF c2] obtain ys where
    ys: "trace p3 = trace p2 @ map ExpireCall ys" "e2 = (e1 \<or> ys \<noteq> [])" "cond p3 = cond p2"
    by auto
  from keepMinIdle_spec [OF km] obtain rs fl where
    rs: "trace p4 = trace p3 @ map (\<lambda>r. CreateCall r None) rs @ fl"
    "case er of None \<Rightarrow> fl = [] | Some e \<Rightarrow> \<exists>r e'. fl = [CreateCall r (Some e')]"
    "cond p4 = cond p3"
    by blast
  have t4: "trace p4 = trace p @ map ExpireCall (xs @ ys) @ map (\<lambda>r. CreateCall r None) rs @ fl"
    using p1 xs ys rs by simp
  show ?thesis
  proof (cases er)
    case (Some e)
    with nc cu n c1 c2 km have "err = Some (Wrapped ''on cleanup'' e)" "q = Unlock p4"
      by (simp_all add: CleanUp_def Let_def)
    with t4 Some rs p1 xs ys show ?thesis
      by (intro exI [of _ "xs @ ys"] exI [of _ rs] exI [of _ fl])
        (simp add: new_events_def Unlock_def)
  next
    case None
    with nc cu n c1 c2 km have eq: "err = None"
      "q = Unlock (if e2 then call_Broadcast p4 else p4)"
      by (simp_all add: CleanUp_def Let_def)
    with t4 None rs p1 xs ys show ?thesis
      by (intro exI [of _ "xs @ ys"] exI [of _ rs]
          exI [of _ "if xs @ ys \<noteq> [] then [BroadcastCall] else []"])
        (auto simp: new_events_def Unlock_def call_defs)
  qed
qed

lemma CleanUp_error_no_Broadcast:
  assumes "\<not> closed p" and "CleanUp rt p = (Some e, q)"
  shows "BroadcastCall \<notin> set (new_events p q) \<and> cond q = cond p"
  using CleanUp_spec [OF assms] by auto

lemma CleanUp_expiry_Broadcast:
  assumes "\<not> closed p" and "CleanUp rt p = (None, q)" and "ExpireCall r \<in> set (new_events p q)"
  shows "last (new_events p q) = BroadcastCall"
proof -
  from CleanUp_spec [OF assms(1,2)] obtain xs rs where
    ne: "new_events p q = map ExpireCall xs @ map (\<lambda>r. CreateCall r None) rs
      @ (if xs \<noteq> [] then [BroadcastCall] else [])"
    by auto
  with assms(3) have "xs \<noteq> []" by (auto split: if_splits)
  with ne show ?thesis by simp
qed

lemma Borrow_capacity_unlocks: "\<not> mutex (snd (Borrow_capacity rt p))"
  using Borrow_capacity_spec [of rt p "fst (Borrow_capacity rt p)" "snd (Borrow_capacity rt p)"]
  by simp

lemma Borrow_waits_unlocked:
  "\<not> mutex (snd (Borrow_enter rt p))" "\<not> mutex (snd (Borrow_wake rt err p))"
  using Borrow_capacity_unlocks
  by (auto simp: Borrow_enter_def Borrow_wake_def Let_def Unlock_def
      split: prod.splits option.splits)

end
